theory Spec2Isabelle
  imports Main
begin

section \<open>Text: characters and the string operations the script calls\<close>

text \<open>
  The script works on Python \<open>str\<close> values. A text is modelled as a \<open>string\<close>; each
  \<open>char\<close> stands for one code point in the range 0..255, which covers every character
  the script's literals and patterns mention. On that range \<open>isdigit\<close> is the class
  \<open>\d\<close> (the decimal digits, which are also the digits \<open>int\<close> reads), \<open>isspace\<close> is
  \<open>str.isspace\<close>, the class \<open>\s\<close> and what \<open>str.strip\<close> drops, and \<open>lower\<close> is
  \<open>str.lower\<close>.
\<close>

definition isdigit :: "char \<Rightarrow> bool" where
  "isdigit c = (c \<in> set ''0123456789'')"

definition isspace :: "char \<Rightarrow> bool" where
  "isspace c = (c \<in> set [CHR 0x09, CHR 0x0A, CHR 0x0B, CHR 0x0C, CHR 0x0D,
                         CHR 0x1C, CHR 0x1D, CHR 0x1E, CHR 0x1F, CHR 0x20, CHR 0x85, CHR 0xA0])"

definition newline :: char where "newline = CHR 0x0A"
definition carriage_return :: char where "carriage_return = CHR 0x0D"

text \<open>
  \<open>str.lower\<close> on one character. The upper-case letters of the range are \<open>A\<close> to \<open>Z\<close>
  (0x41 to 0x5A) and 0xC0 to 0xDE without the multiplication sign 0xD7; the lower-case
  letter is 0x20 above, that is, bit 5 is set. The characters are taken apart into their
  bits (least significant first) so that the function evaluates quickly.
\<close>

fun lower :: "char \<Rightarrow> char" where
  "lower (Char b0 b1 b2 b3 b4 b5 b6 b7) =
     (if b6 \<and> \<not> b5 \<and>
         (if b7 then \<not> (b4 \<and> b2 \<and> b1 \<and> b0)
          else (b0 \<or> b1 \<or> b2 \<or> b3 \<or> b4) \<and> \<not> (b4 \<and> b3 \<and> (b2 \<or> (b1 \<and> b0))))
      then Char b0 b1 b2 b3 b4 True b6 b7
      else Char b0 b1 b2 b3 b4 b5 b6 b7)"

definition uppercase :: string where
  "uppercase = ''ABCDEFGHIJKLMNOPQRSTUVWXYZ'' @
     [CHR 0xC0, CHR 0xC1, CHR 0xC2, CHR 0xC3, CHR 0xC4, CHR 0xC5, CHR 0xC6, CHR 0xC7,
      CHR 0xC8, CHR 0xC9, CHR 0xCA, CHR 0xCB, CHR 0xCC, CHR 0xCD, CHR 0xCE, CHR 0xCF,
      CHR 0xD0, CHR 0xD1, CHR 0xD2, CHR 0xD3, CHR 0xD4, CHR 0xD5, CHR 0xD6, CHR 0xD8,
      CHR 0xD9, CHR 0xDA, CHR 0xDB, CHR 0xDC, CHR 0xDD, CHR 0xDE]"

definition lowercase :: string where
  "lowercase = ''abcdefghijklmnopqrstuvwxyz'' @
     [CHR 0xE0, CHR 0xE1, CHR 0xE2, CHR 0xE3, CHR 0xE4, CHR 0xE5, CHR 0xE6, CHR 0xE7,
      CHR 0xE8, CHR 0xE9, CHR 0xEA, CHR 0xEB, CHR 0xEC, CHR 0xED, CHR 0xEE, CHR 0xEF,
      CHR 0xF0, CHR 0xF1, CHR 0xF2, CHR 0xF3, CHR 0xF4, CHR 0xF5, CHR 0xF6, CHR 0xF8,
      CHR 0xF9, CHR 0xFA, CHR 0xFB, CHR 0xFC, CHR 0xFD, CHR 0xFE]"

definition digit_val :: "char \<Rightarrow> nat" where
  "digit_val c = of_char c - 48"

definition strip :: "string \<Rightarrow> string" where
  \<comment> \<open>\<open>str.strip()\<close>\<close>
  "strip s = dropWhile isspace (rev (dropWhile isspace (rev s)))"

fun contains :: "string \<Rightarrow> string \<Rightarrow> bool" where
  \<comment> \<open>\<open>needle in hay\<close>\<close>
  "contains needle [] = (needle = [])"
| "contains needle (c # cs) = (take (length needle) (c # cs) = needle \<or> contains needle cs)"

definition remove_commas :: "string \<Rightarrow> string" where
  \<comment> \<open>\<open>s.replace(',', '')\<close>\<close>
  "remove_commas s = filter (\<lambda>c. c \<noteq> CHR '','') s"

subsection \<open>\<open>int(s)\<close> and \<open>str(n)\<close>\<close>

text \<open>
  \<open>int(s)\<close> in base 10: surrounding whitespace is dropped, one sign is allowed, then
  digits, with single underscores allowed between digits. Anything else raises
  \<open>ValueError\<close>, which is the value \<open>None\<close> here. The whitespace \<open>int\<close> drops is
  narrower than that of \<open>str.strip\<close>: the separators 0x1C to 0x1F are not part of it.
  A text with more than \<open>int_max_str_digits\<close> digits is refused as well: this is the
  interpreter's limit on the conversion between \<open>int\<close> and \<open>str\<close>, 4300 digits unless
  configured otherwise, and it applies to \<open>str(n)\<close> in the same way.
\<close>

definition int_space :: "char \<Rightarrow> bool" where
  "int_space c = (c \<in> set [CHR 0x09, CHR 0x0A, CHR 0x0B, CHR 0x0C, CHR 0x0D, CHR 0x20,
                           CHR 0x85, CHR 0xA0])"

definition int_strip :: "string \<Rightarrow> string" where
  "int_strip s = dropWhile int_space (rev (dropWhile int_space (rev s)))"

definition int_max_str_digits :: nat where
  \<comment> \<open>\<open>sys.int_info.default_max_str_digits\<close>\<close>
  "int_max_str_digits = 4300"

fun digits_acc :: "nat \<Rightarrow> string \<Rightarrow> nat option" where
  "digits_acc acc [] = Some acc"
| "digits_acc acc (c # cs) =
     (if isdigit c then digits_acc (10 * acc + digit_val c) cs
      else if c = CHR ''_'' then
        (case cs of
           [] \<Rightarrow> None
         | d # ds \<Rightarrow> if isdigit d then digits_acc (10 * acc + digit_val d) ds else None)
      else None)"

definition py_digits :: "string \<Rightarrow> nat option" where
  "py_digits s = (case s of
       [] \<Rightarrow> None
     | c # cs \<Rightarrow> if isdigit c then digits_acc (digit_val c) cs else None)"

definition py_int :: "string \<Rightarrow> int option" where
  \<comment> \<open>\<open>int(s)\<close>; the first test is the limit on the number of digits\<close>
  "py_int s =
     (if length (filter isdigit s) > int_max_str_digits then None
      else case int_strip s of
          [] \<Rightarrow> None
        | c # cs \<Rightarrow>
            if c = CHR ''-'' then map_option (\<lambda>n. - int n) (py_digits cs)
            else if c = CHR ''+'' then map_option int (py_digits cs)
            else map_option int (py_digits (c # cs)))"

definition digit_char :: "nat \<Rightarrow> char" where
  "digit_char d = ''0123456789'' ! d"

fun nat_str :: "nat \<Rightarrow> string" where
  "nat_str n = (if n < 10 then [digit_char n] else nat_str (n div 10) @ [digit_char (n mod 10)])"

declare nat_str.simps [simp del]

definition py_str :: "int \<Rightarrow> string option" where
  \<comment> \<open>\<open>str(n)\<close>, which is what an f-string writes for an \<open>int\<close>; \<open>None\<close> is \<open>ValueError\<close>\<close>
  "py_str i =
     (let ds = nat_str (nat \<bar>i\<bar>)
      in if length ds > int_max_str_digits then None
         else Some (if i < 0 then CHR ''-'' # ds else ds))"

section \<open>Regular expressions: the part of \<open>re\<close> the script uses\<close>

text \<open>
  The script's four patterns use literals, \<open>.\<close>, \<open>\d\<close>, \<open>\s\<close>, character classes,
  the greedy quantifiers \<open>*\<close>, \<open>+\<close>, \<open>?\<close>, the lazy \<open>*?\<close>, and capturing groups; every
  \<open>*\<close>, \<open>+\<close> and \<open>*?\<close> is applied to a single-character item. The matcher is the
  backtracking one of \<open>re\<close>: alternatives are tried in priority order and the first
  complete match wins.
\<close>

datatype cls = C char | D | S | NS

datatype atom = Lit char | Dot | Dig | Spc | In "cls list" | NotIn "cls list"

datatype regex =
    Eps
  | A atom
  | Seq regex regex
  | Star atom
  | Lazy atom
  | Plus atom
  | Opt regex
  | Group nat regex

record flags =
  ignorecase :: bool
  dotall :: bool

fun cls_ok :: "flags \<Rightarrow> cls \<Rightarrow> char \<Rightarrow> bool" where
  "cls_ok fl (C x) c = (if ignorecase fl then lower c = lower x else c = x)"
| "cls_ok fl D c = isdigit c"
| "cls_ok fl S c = isspace c"
| "cls_ok fl NS c = (\<not> isspace c)"

fun atom_ok :: "flags \<Rightarrow> atom \<Rightarrow> char \<Rightarrow> bool" where
  "atom_ok fl (Lit x) c = (if ignorecase fl then lower c = lower x else c = x)"
| "atom_ok fl Dot c = (dotall fl \<or> c \<noteq> CHR 0x0A)"
| "atom_ok fl Dig c = isdigit c"
| "atom_ok fl Spc c = isspace c"
| "atom_ok fl (In ks) c = list_ex (\<lambda>k. cls_ok fl k c) ks"
| "atom_ok fl (NotIn ks) c = (\<not> list_ex (\<lambda>k. cls_ok fl k c) ks)"

text \<open>
  The matcher works on a stack of what is still to be matched. \<open>Close n s0\<close> ends
  group \<open>n\<close>, which was opened when the remaining input was \<open>s0\<close>. \<open>Advance s0\<close>
  is the engine's \<open>must_advance\<close> check: the match is refused (and the matcher
  backtracks) unless input has been consumed since \<open>s0\<close>. The result is the input left
  after the match and the groups captured, latest first.
\<close>

datatype item = R regex | Close nat string | Advance string

type_synonym captures = "(nat \<times> string) list"

fun wt :: "regex \<Rightarrow> nat" where
  "wt Eps = 1"
| "wt (A a) = 1"
| "wt (Seq r1 r2) = 1 + wt r1 + wt r2"
| "wt (Star a) = 1"
| "wt (Lazy a) = 1"
| "wt (Plus a) = 3"
| "wt (Opt r) = 1 + wt r"
| "wt (Group n r) = 2 + wt r"

fun iwt :: "item \<Rightarrow> nat" where
  "iwt (R r) = wt r"
| "iwt (Close n s) = 1"
| "iwt (Advance s) = 1"

function (sequential) m :: "flags \<Rightarrow> item list \<Rightarrow> string \<Rightarrow> captures \<Rightarrow> (string \<times> captures) option" where
  "m fl [] s caps = Some (s, caps)"
| "m fl (Close n s0 # k) s caps = m fl k s ((n, take (length s0 - length s) s0) # caps)"
| "m fl (Advance s0 # k) s caps = (if length s < length s0 then m fl k s caps else None)"
| "m fl (R Eps # k) s caps = m fl k s caps"
| "m fl (R (A a) # k) [] caps = None"
| "m fl (R (A a) # k) (c # cs) caps = (if atom_ok fl a c then m fl k cs caps else None)"
| "m fl (R (Seq r1 r2) # k) s caps = m fl (R r1 # R r2 # k) s caps"
| "m fl (R (Star a) # k) [] caps = m fl k [] caps"
| "m fl (R (Star a) # k) (c # cs) caps =
     (if atom_ok fl a c then
        (case m fl (R (Star a) # k) cs caps of
           Some res \<Rightarrow> Some res
         | None \<Rightarrow> m fl k (c # cs) caps)
      else m fl k (c # cs) caps)"
| "m fl (R (Lazy a) # k) [] caps = m fl k [] caps"
| "m fl (R (Lazy a) # k) (c # cs) caps =
     (case m fl k (c # cs) caps of
        Some res \<Rightarrow> Some res
      | None \<Rightarrow> if atom_ok fl a c then m fl (R (Lazy a) # k) cs caps else None)"
| "m fl (R (Plus a) # k) s caps = m fl (R (A a) # R (Star a) # k) s caps"
| "m fl (R (Opt r) # k) s caps =
     (case m fl (R r # k) s caps of
        Some res \<Rightarrow> Some res
      | None \<Rightarrow> m fl k s caps)"
| "m fl (R (Group n r) # k) s caps = m fl (R r # Close n s # k) s caps"
  by pat_completeness auto
termination
  by (relation "measures [\<lambda>(fl, k, s, caps). length s, \<lambda>(fl, k, s, caps). sum_list (map iwt k)]") auto

lemma m_suffix: "m fl k s caps = Some (rest, caps') \<Longrightarrow> \<exists>u. s = u @ rest"
  by (induction fl k s caps rule: m.induct)
     (auto split: if_splits option.splits intro: Cons_eq_appendI)

text \<open>A match object: the text before the match, the match, the text after it, the groups.\<close>

record match =
  pre :: string
  whole :: string
  post :: string
  groups :: captures

definition group :: "match \<Rightarrow> nat \<Rightarrow> string option" where
  \<comment> \<open>\<open>match.group(n)\<close>; \<open>None\<close> for a group that took no part\<close>
  "group mt n = map_of (groups mt) n"

fun re_search :: "flags \<Rightarrow> regex \<Rightarrow> string \<Rightarrow> match option" where
  \<comment> \<open>\<open>re.search\<close>: the match at the leftmost position that has one\<close>
  "re_search fl r s =
     (case m fl [R r] s [] of
        Some (rest, caps) \<Rightarrow>
          Some \<lparr>pre = [], whole = take (length s - length rest) s, post = rest, groups = caps\<rparr>
      | None \<Rightarrow>
          (case s of
             [] \<Rightarrow> None
           | c # cs \<Rightarrow> map_option (\<lambda>mt. mt\<lparr>pre := c # pre mt\<rparr>) (re_search fl r cs)))"

declare re_search.simps [simp del]

lemma re_search_split: "re_search fl r s = Some mt \<Longrightarrow> s = pre mt @ whole mt @ post mt"
proof (induction s arbitrary: mt)
  case Nil
  then show ?case
    by (auto simp: re_search.simps [of fl r "[]"] split: option.splits dest: m_suffix)
next
  case (Cons c cs)
  show ?case
  proof (cases "m fl [R r] (c # cs) []")
    case None
    with Cons.prems obtain mt' where 1: "re_search fl r cs = Some mt'" and 2: "mt = mt'\<lparr>pre := c # pre mt'\<rparr>"
      by (auto simp: re_search.simps [of fl r "c # cs"])
    from Cons.IH [OF 1] 2 show ?thesis by simp
  next
    case (Some res)
    obtain rest caps where res: "res = (rest, caps)" by (cases res)
    from m_suffix Some res obtain u where u: "c # cs = u @ rest" by blast
    from Cons.prems Some res
    have "mt = \<lparr>pre = [], whole = take (length (c # cs) - length rest) (c # cs), post = rest, groups = caps\<rparr>"
      by (simp add: re_search.simps [of fl r "c # cs"])
    with u show ?thesis by simp
  qed
qed


subsection \<open>\<open>re.sub\<close>\<close>

text \<open>
  A replacement template is a list of group references and literal text. \<open>re.sub\<close>
  replaces the matches that successive searches find, from left to right, each search
  starting where the previous match ended; \<open>count = 0\<close> means no limit. After an empty
  match the next search must advance: at the position where it starts it accepts only
  a non-empty match.
\<close>

datatype tpart = Ref nat | Txt string

fun expand_part :: "match \<Rightarrow> tpart \<Rightarrow> string" where
  "expand_part mt (Ref n) = (case group mt n of Some g \<Rightarrow> g | None \<Rightarrow> [])"
| "expand_part mt (Txt t) = t"

definition expand :: "tpart list \<Rightarrow> match \<Rightarrow> string" where
  "expand tpl mt = concat (map (expand_part mt) tpl)"

definition search_from :: "flags \<Rightarrow> regex \<Rightarrow> bool \<Rightarrow> string \<Rightarrow> match option" where
  "search_from fl r must_advance s =
     (if must_advance then
        (case m fl [R r, Advance s] s [] of
           Some (rest, caps) \<Rightarrow>
             Some \<lparr>pre = [], whole = take (length s - length rest) s, post = rest, groups = caps\<rparr>
         | None \<Rightarrow>
             (case s of
                [] \<Rightarrow> None
              | c # cs \<Rightarrow> map_option (\<lambda>mt. mt\<lparr>pre := c # pre mt\<rparr>) (re_search fl r cs)))
      else re_search fl r s)"

lemma m_advance:
  "m fl k s caps = Some (rest, caps') \<Longrightarrow> Advance s0 \<in> set k \<Longrightarrow> length rest < length s0"
proof (induction fl k s caps rule: m.induct)
  case (3 fl s1 k s caps)
  from 3(2) have len: "length s < length s1" and run: "m fl k s caps = Some (rest, caps')"
    by (auto split: if_splits)
  show ?case
  proof (cases "s1 = s0")
    case True
    from m_suffix [OF run] obtain u where "s = u @ rest" by blast
    with len True show ?thesis by simp
  next
    case False
    with 3 len run show ?thesis by simp
  qed
qed (auto split: if_splits option.splits)

lemma search_from_split:
  "search_from fl r adv s = Some mt \<Longrightarrow> s = pre mt @ whole mt @ post mt"
proof (cases adv)
  case False
  assume "search_from fl r adv s = Some mt"
  with False show ?thesis by (simp add: search_from_def re_search_split)
next
  case True
  assume a: "search_from fl r adv s = Some mt"
  show ?thesis
  proof (cases "m fl [R r, Advance s] s []")
    case (Some res)
    obtain rest caps where res: "res = (rest, caps)" by (cases res)
    from m_suffix Some res obtain u where u: "s = u @ rest" by blast
    from a True Some res
    have "mt = \<lparr>pre = [], whole = take (length s - length rest) s, post = rest, groups = caps\<rparr>"
      by (simp add: search_from_def)
    with u show ?thesis by simp
  next
    case None
    with a True obtain c cs mt' where s: "s = c # cs" and 1: "re_search fl r cs = Some mt'"
      and 2: "mt = mt'\<lparr>pre := c # pre mt'\<rparr>"
      by (cases s) (auto simp: search_from_def)
    from re_search_split [OF 1] s 2 show ?thesis by simp
  qed
qed

lemma search_from_advances:
  "search_from fl r True s = Some mt \<Longrightarrow> length (post mt) < length s"
proof -
  assume a: "search_from fl r True s = Some mt"
  show ?thesis
  proof (cases "m fl [R r, Advance s] s []")
    case (Some res)
    obtain rest caps where res: "res = (rest, caps)" by (cases res)
    from Some res have "length rest < length s" by (auto dest: m_advance [where ?s0.0 = s])
    moreover from a Some res have "post mt = rest" by (auto simp: search_from_def)
    ultimately show ?thesis by simp
  next
    case None
    with a obtain c cs mt' where s: "s = c # cs" and 1: "re_search fl r cs = Some mt'"
      and 2: "mt = mt'\<lparr>pre := c # pre mt'\<rparr>"
      by (cases s) (auto simp: search_from_def)
    from re_search_split [OF 1] s 2 show ?thesis by simp
  qed
qed

function sub_loop :: "flags \<Rightarrow> regex \<Rightarrow> tpart list \<Rightarrow> nat \<Rightarrow> nat \<Rightarrow> bool \<Rightarrow> string \<Rightarrow> string" where
  "sub_loop fl r tpl count n must_advance s =
     (if count \<noteq> 0 \<and> count \<le> n then s
      else case search_from fl r must_advance s of
          None \<Rightarrow> s
        | Some mt \<Rightarrow>
            pre mt @ expand tpl mt @ sub_loop fl r tpl count (Suc n) (whole mt = []) (post mt))"
  by pat_completeness auto
termination
proof (relation "measures [\<lambda>(fl, r, tpl, count, n, adv, s). length s,
                           \<lambda>(fl, r, tpl, count, n, adv, s). if adv then 0 else 1]", goal_cases)
  case 1
  show ?case by simp
next
  case (2 fl r tpl count n adv s mt)
  show ?case
  proof (cases adv)
    case True
    with 2(2) search_from_advances show ?thesis by simp
  next
    case False
    from search_from_split [OF 2(2)] have "s = pre mt @ whole mt @ post mt" .
    then have "length s = length (pre mt) + length (whole mt) + length (post mt)"
      by (metis length_append add.assoc)
    with False show ?thesis by auto
  qed
qed

declare sub_loop.simps [simp del]

definition re_sub :: "flags \<Rightarrow> regex \<Rightarrow> tpart list \<Rightarrow> string \<Rightarrow> nat \<Rightarrow> string" where
  \<comment> \<open>\<open>re.sub(pattern, repl, string, count, flags)\<close>\<close>
  "re_sub fl r tpl s count = sub_loop fl r tpl count 0 False s"

subsection \<open>The script's patterns\<close>

definition lits :: "string \<Rightarrow> regex list" where
  "lits s = map (\<lambda>c. A (Lit c)) s"

fun seqs :: "regex list \<Rightarrow> regex" where
  "seqs [] = Eps"
| "seqs (r # rs) = Seq r (seqs rs)"

definition squote :: char where "squote = CHR 0x27"
definition dquote :: char where "dquote = CHR 0x22"

definition quote :: atom where
  \<comment> \<open>the class \<open>['\"]\<close>\<close>
  "quote = In [C squote, C dquote]"

definition flags_I :: flags where
  \<comment> \<open>\<open>re.IGNORECASE\<close>\<close>
  "flags_I = \<lparr>ignorecase = True, dotall = False\<rparr>"

definition flags_IS :: flags where
  \<comment> \<open>\<open>re.IGNORECASE | re.DOTALL\<close>\<close>
  "flags_IS = \<lparr>ignorecase = True, dotall = True\<rparr>"

definition citations_pattern :: regex where
  \<comment> \<open>\<open>Citations.*?(\d+(?:,\d+)?)\<close>\<close>
  "citations_pattern =
     seqs (lits ''Citations'' @
       [Lazy Dot,
        Group 1 (Seq (Plus Dig) (Opt (Seq (A (Lit CHR '','')) (Plus Dig))))])"

definition yaml_pattern :: regex where
  \<comment> \<open>\<open>(- name:\s*['\"]?GOOGLE SCHOLAR CITATIONS['\"]?\s*\n\s*image:[^\n]*\n\s*count:\s*['\"])(\d+)(['\"])\<close>\<close>
  "yaml_pattern =
     Seq (Group 1 (seqs (lits ''- name:'' @ [Star Spc, Opt (A quote)] @
                         lits ''GOOGLE SCHOLAR CITATIONS'' @
                         [Opt (A quote), Star Spc, A (Lit newline), Star Spc] @
                         lits ''image:'' @ [Star (NotIn [C newline]), A (Lit newline), Star Spc] @
                         lits ''count:'' @ [Star Spc, A quote])))
      (Seq (Group 2 (Plus Dig)) (Group 3 (A quote)))"

definition yaml_pattern2 :: regex where
  \<comment> \<open>\<open>(name:\s*['\"]?GOOGLE SCHOLAR CITATIONS['\"]?[\s\S]*?count:\s*['\"])(\d+)(['\"])\<close>\<close>
  "yaml_pattern2 =
     Seq (Group 1 (seqs (lits ''name:'' @ [Star Spc, Opt (A quote)] @
                         lits ''GOOGLE SCHOLAR CITATIONS'' @
                         [Opt (A quote), Lazy (In [S, NS])] @
                         lits ''count:'' @ [Star Spc, A quote])))
      (Seq (Group 2 (Plus Dig)) (Group 3 (A quote)))"

definition html_pattern :: regex where
  \<comment> \<open>\<open>(<img[^>]*alt="GOOGLE SCHOLAR CITATIONS"[^>]*/>\s*<p[^>]*data-count=")(\d+)("[^>]*>)\<close>\<close>
  "html_pattern =
     Seq (Group 1 (seqs (lits ''<img'' @ [Star (NotIn [C CHR ''>''])] @
                         lits ''alt='' @ [A (Lit dquote)] @ lits ''GOOGLE SCHOLAR CITATIONS'' @
                         [A (Lit dquote), Star (NotIn [C CHR ''>''])] @ lits ''/>'' @
                         [Star Spc] @ lits ''<p'' @ [Star (NotIn [C CHR ''>''])] @
                         lits ''data-count='' @ [A (Lit dquote)])))
      (Seq (Group 2 (Plus Dig))
           (Group 3 (seqs [A (Lit dquote), Star (NotIn [C CHR ''>'']), A (Lit CHR ''>'')])))"

definition fmt :: "int option \<Rightarrow> string option" where
  \<comment> \<open>what an f-string writes for the value: \<open>str(n)\<close> for an int, \<open>None\<close> for \<open>None\<close>\<close>
  "fmt v = (case v of Some i \<Rightarrow> py_str i | None \<Rightarrow> Some ''None'')"

definition count_template :: "string \<Rightarrow> tpart list" where
  \<comment> \<open>the replacement \<open>rf"\g<1>{new_count}\g<3>"\<close>, given what \<open>{new_count}\<close> writes\<close>
  "count_template new_text = [Ref 1, Txt new_text, Ref 3]"


section \<open>The parsed document\<close>

text \<open>
  \<open>BeautifulSoup(response.text, 'html.parser')\<close> builds a tree of tags and strings.
  The tree is modelled as a list of top-level nodes; an attribute list holds the final
  value of each attribute. The three queries the script makes are the library's:
  \<open>find_all\<close> visits descendants in document order, \<open>find\<close> is the first of them, a
  \<open>class\<close> attribute matches when one of its whitespace-separated words is the wanted
  one, and \<open>get_text(strip=True)\<close> joins the stripped, non-empty strings below a tag.
\<close>

datatype node = Tag string "(string \<times> string) list" "node list" | Str string

fun descendants :: "node \<Rightarrow> node list" where
  "descendants (Str t) = []"
| "descendants (Tag name attrs children) = concat (map (\<lambda>c. c # descendants c) children)"

definition soup_nodes :: "node list \<Rightarrow> node list" where
  \<comment> \<open>every node of the document, in document order\<close>
  "soup_nodes soup = concat (map (\<lambda>c. c # descendants c) soup)"

fun words_acc :: "string \<Rightarrow> string \<Rightarrow> string list" where
  "words_acc cur [] = (if cur = [] then [] else [rev cur])"
| "words_acc cur (c # cs) =
     (if isspace c then (if cur = [] then words_acc [] cs else rev cur # words_acc [] cs)
      else words_acc (c # cur) cs)"

definition split_ws :: "string \<Rightarrow> string list" where
  "split_ws t = words_acc [] t"

fun is_tag :: "string \<Rightarrow> node \<Rightarrow> bool" where
  "is_tag name (Tag name' attrs children) = (name' = name)"
| "is_tag name (Str t) = False"

fun has_id :: "string \<Rightarrow> node \<Rightarrow> bool" where
  "has_id v (Tag name attrs children) = (map_of attrs ''id'' = Some v)"
| "has_id v (Str t) = False"

fun has_class :: "string \<Rightarrow> node \<Rightarrow> bool" where
  "has_class v (Tag name attrs children) =
     (case map_of attrs ''class'' of None \<Rightarrow> False | Some val \<Rightarrow> v \<in> set (split_ws val))"
| "has_class v (Str t) = False"

fun strings :: "node \<Rightarrow> string list" where
  "strings (Str t) = [t]"
| "strings (Tag name attrs children) = concat (map strings children)"

definition get_text_strip :: "node \<Rightarrow> string" where
  \<comment> \<open>\<open>tag.get_text(strip=True)\<close>\<close>
  "get_text_strip n = concat (filter (\<lambda>t. t \<noteq> []) (map strip (strings n)))"

definition find_all :: "(node \<Rightarrow> bool) \<Rightarrow> node \<Rightarrow> node list" where
  \<comment> \<open>\<open>tag.find_all(...)\<close>\<close>
  "find_all P n = filter P (descendants n)"

definition soup_find_all :: "(node \<Rightarrow> bool) \<Rightarrow> node list \<Rightarrow> node list" where
  \<comment> \<open>\<open>soup.find_all(...)\<close>\<close>
  "soup_find_all P soup = filter P (soup_nodes soup)"

definition soup_find :: "(node \<Rightarrow> bool) \<Rightarrow> node list \<Rightarrow> node option" where
  \<comment> \<open>\<open>soup.find(...)\<close>\<close>
  "soup_find P soup = (case soup_find_all P soup of [] \<Rightarrow> None | n # ns \<Rightarrow> Some n)"

section \<open>Extraction: the three strategies of \<open>get_citation_count_direct\<close>\<close>

datatype exn =
    RequestException  \<comment> \<open>\<open>requests.get\<close> failed\<close>
  | HTTPError         \<comment> \<open>\<open>raise_for_status\<close>, a \<open>RequestException\<close> too\<close>
  | ValueError        \<comment> \<open>\<open>int(...)\<close> on text that is no integer\<close>
  | AttributeError    \<comment> \<open>a method called on \<open>None\<close>\<close>
  | Blocked           \<comment> \<open>\<open>Exception("Blocked by Google Scholar (CAPTCHA)")\<close>\<close>
  | NotFound          \<comment> \<open>\<open>Exception("Could not find citation count in page")\<close>\<close>
  | IOError           \<comment> \<open>\<open>open\<close>, \<open>read\<close> or \<open>write\<close> failed\<close>

record response =
  status_code :: nat
  resp_text :: string  \<comment> \<open>\<open>response.text\<close>\<close>
  soup :: "node list"  \<comment> \<open>the tree \<open>html.parser\<close> builds for \<open>response.text\<close>\<close>

definition to_count :: "string \<Rightarrow> exn + int" where
  \<comment> \<open>\<open>int(citation_text.replace(',', ''))\<close>\<close>
  "to_count citation_text =
     (case py_int (remove_commas citation_text) of None \<Rightarrow> Inl ValueError | Some n \<Rightarrow> Inr n)"

text \<open>
  Each strategy yields \<open>None\<close> when it does not apply (the script goes on to the next
  one), \<open>Some (Inr n)\<close> when it returns \<open>n\<close>, \<open>Some (Inl e)\<close> when it raises.
\<close>

fun scan_rows :: "node list \<Rightarrow> (exn + int) option" where
  \<comment> \<open>the loop \<open>for row in rows\<close>\<close>
  "scan_rows [] = None"
| "scan_rows (row # rows) =
     (let cells = find_all (is_tag ''td'') row in
      if length cells \<ge> 2 then
        (let header = map lower (get_text_strip (cells ! 0)) in
         if contains ''citations'' header then Some (to_count (get_text_strip (cells ! 1)))
         else scan_rows rows)
      else scan_rows rows)"

definition method1 :: "node list \<Rightarrow> (exn + int) option" where
  "method1 sp =
     (case soup_find (\<lambda>n. is_tag ''table'' n \<and> has_id ''gsc_rsb_st'' n) sp of
        None \<Rightarrow> None
      | Some stats_table \<Rightarrow> scan_rows (find_all (is_tag ''tr'') stats_table))"

definition method2 :: "node list \<Rightarrow> (exn + int) option" where
  "method2 sp =
     (let citation_cells = soup_find_all (\<lambda>n. is_tag ''td'' n \<and> has_class ''gsc_rsb_std'' n) sp in
      if citation_cells \<noteq> [] \<and> length citation_cells \<ge> 1
      then Some (to_count (get_text_strip (citation_cells ! 0)))
      else None)"

definition method3 :: "string \<Rightarrow> (exn + int) option" where
  "method3 t =
     (case re_search flags_IS citations_pattern t of
        None \<Rightarrow> None
      | Some mt \<Rightarrow>
          (case group mt 1 of
             None \<Rightarrow> Some (Inl AttributeError)
           | Some g \<Rightarrow> Some (to_count g)))"

definition is_block_page :: "string \<Rightarrow> bool" where
  \<comment> \<open>the test on \<open>response.text\<close> that follows a failed parse (line 115)\<close>
  "is_block_page t = (contains ''CAPTCHA'' t \<or> contains ''unusual traffic'' (map lower t))"

definition extract_count :: "response \<Rightarrow> exn + int" where
  \<comment> \<open>lines 76 to 119: what one attempt does with a response it has received\<close>
  "extract_count resp =
     (case method1 (soup resp) of
        Some res \<Rightarrow> res
      | None \<Rightarrow>
          (case method2 (soup resp) of
             Some res \<Rightarrow> res
           | None \<Rightarrow>
               (case method3 (resp_text resp) of
                  Some res \<Rightarrow> res
                | None \<Rightarrow> if is_block_page (resp_text resp) then Inl Blocked else Inl NotFound)))"


section \<open>The world the script runs in\<close>

text \<open>
  What the script reads and changes: the environment variable, the network (the outcome
  of the k-th request it sends), the random source behind the delays, the files below
  the repository root (where \<open>main\<close> changes directory to), and the console. Delays
  are recorded, not waited for.

  The \<open>contents\<close> of a file are its characters as stored, line ends included. The
  script opens its files in text mode with the default \<open>newline\<close>: reading turns every
  CR LF and every lone CR into a line feed (universal newlines), and writing turns every
  line feed into \<open>os.linesep\<close>, which is the line feed on POSIX systems and CR LF on
  Windows. A file that cannot be opened or decoded is one that is not \<open>readable\<close>. The
  console is taken to accept every line printed.
\<close>

datatype fetch = Fails | Responds response

datatype request = ViaProxy string string | Direct string

record file_entry =
  contents :: string
  readable :: bool
  writable :: bool

datatype line =
    AttemptLine nat
  | WaitingLine nat
  | UsingProxy
  | NoKeyDirect
  | FetchedLine int
  | CouldNotParse
  | ResponseLength nat
  | CaptchaLine
  | FailedNetwork nat
  | Failed nat exn
  | Retrying
  | AllFailed
  | YamlMissing string
  | Updated string string
  | SuccessLine string
  | YamlNoEntry string
  | YamlError exn
  | HtmlUpdated string string
  | HtmlNoEntry string
  | HtmlError exn
  | Banner
  | ScholarIdLine string
  | ScholarUrlLine string
  | KeyFound
  | NoKey
  | Complete

record world =
  scraper_api_key :: "string option"  \<comment> \<open>\<open>os.getenv('SCRAPER_API_KEY')\<close>\<close>
  linesep :: string  \<comment> \<open>\<open>os.linesep\<close>\<close>
  net :: "nat \<Rightarrow> fetch"
  rnd :: "nat \<Rightarrow> nat"
  requests :: "request list"
  slept :: "nat list"
  files :: "string \<rightharpoonup> file_entry"
  console :: "line list"

datatype 'a outcome = Returns 'a | Exits nat

definition say :: "line list \<Rightarrow> world \<Rightarrow> world" where
  "say ls w = w\<lparr>console := console w @ ls\<rparr>"

definition randint :: "nat \<Rightarrow> nat \<Rightarrow> world \<Rightarrow> nat" where
  "randint lo hi w = lo + rnd w (length (slept w)) mod (hi - lo + 1)"

definition sleep :: "nat \<Rightarrow> world \<Rightarrow> world" where
  "sleep d w = w\<lparr>slept := slept w @ [d]\<rparr>"

fun universal_newlines :: "string \<Rightarrow> string" where
  \<comment> \<open>what reading in text mode makes of the characters stored\<close>
  "universal_newlines [] = []"
| "universal_newlines [c] = [if c = carriage_return then newline else c]"
| "universal_newlines (c # d # cs) =
     (if c = carriage_return
      then (if d = newline then newline # universal_newlines cs
            else newline # universal_newlines (d # cs))
      else c # universal_newlines (d # cs))"

definition write_newlines :: "string \<Rightarrow> string \<Rightarrow> string" where
  \<comment> \<open>what writing in text mode stores for a text\<close>
  "write_newlines sep t = concat (map (\<lambda>c. if c = newline then sep else [c]) t)"

definition open_read :: "world \<Rightarrow> string \<Rightarrow> exn + string" where
  \<comment> \<open>\<open>with open(file_path, 'r') as f: content = f.read()\<close>\<close>
  "open_read w file_path =
     (case files w file_path of
        None \<Rightarrow> Inl IOError
      | Some f \<Rightarrow> if readable f then Inr (universal_newlines (contents f)) else Inl IOError)"

definition open_write :: "world \<Rightarrow> string \<Rightarrow> string \<Rightarrow> exn + world" where
  \<comment> \<open>\<open>with open(file_path, 'w') as f: f.write(new_content)\<close>\<close>
  "open_write w file_path new_content =
     (case files w file_path of
        None \<Rightarrow>
          Inr (w\<lparr>files := (files w)(file_path \<mapsto>
                 \<lparr>contents = write_newlines (linesep w) new_content,
                  readable = True, writable = True\<rparr>)\<rparr>)
      | Some f \<Rightarrow>
          if writable f
          then Inr (w\<lparr>files := (files w)(file_path \<mapsto>
                      f\<lparr>contents := write_newlines (linesep w) new_content\<rparr>)\<rparr>)
          else Inl IOError)"

section \<open>The script\<close>

definition SCHOLAR_ID :: string where "SCHOLAR_ID = ''D9ebkwoAAAAJ''"
definition CONTENT_FILE :: string where "CONTENT_FILE = ''data/content.yml''"
definition INDEX_FILE :: string where "INDEX_FILE = ''index.html''"
definition MAX_RETRIES :: nat where "MAX_RETRIES = 5"

definition scholar_url_of :: "string \<Rightarrow> string" where
  "scholar_url_of scholar_id = ''https://scholar.google.com/citations?user='' @ scholar_id @ ''&hl=en''"

definition SCHOLAR_URL :: string where "SCHOLAR_URL = scholar_url_of SCHOLAR_ID"

subsection \<open>\<open>get_citation_count_direct\<close>\<close>

definition extract_lines :: "response \<Rightarrow> line list" where
  \<comment> \<open>what lines 76 to 119 print\<close>
  "extract_lines resp =
     (case extract_count resp of
        Inr n \<Rightarrow> [FetchedLine n]
      | Inl e \<Rightarrow>
          if e = Blocked then [CouldNotParse, ResponseLength (length (resp_text resp)), CaptchaLine]
          else if e = NotFound then [CouldNotParse, ResponseLength (length (resp_text resp))]
          else [])"

definition use_proxy :: "world \<Rightarrow> bool" where
  \<comment> \<open>\<open>if scraper_api_key:\<close>, false for an unset and for an empty variable\<close>
  "use_proxy w = (case scraper_api_key w of None \<Rightarrow> False | Some key \<Rightarrow> key \<noteq> [])"

definition attempt_body :: "string \<Rightarrow> nat \<Rightarrow> world \<Rightarrow> (exn + int) \<times> world" where
  \<comment> \<open>the \<open>try\<close> block, lines 43 to 119\<close>
  "attempt_body scholar_url attempt w0 =
     (let w1 = say [AttemptLine attempt] w0;
          w2 = (if attempt > 1
                then (let wait_time = randint 10 30 w1 * attempt
                      in sleep wait_time (say [WaitingLine wait_time] w1))
                else sleep (randint 2 5 w1) w1);
          w3 = (if use_proxy w2
                then (say [UsingProxy] w2)
                       \<lparr>requests := requests w2 @ [ViaProxy (the (scraper_api_key w2)) scholar_url]\<rparr>
                else (say [NoKeyDirect] w2)\<lparr>requests := requests w2 @ [Direct scholar_url]\<rparr>)
      in case net w2 (length (requests w2)) of
           Fails \<Rightarrow> (Inl RequestException, w3)
         | Responds resp \<Rightarrow>
             if 400 \<le> status_code resp \<and> status_code resp < 600 then (Inl HTTPError, w3)
             else (extract_count resp, say (extract_lines resp) w3))"

fun for_attempts :: "string \<Rightarrow> nat list \<Rightarrow> world \<Rightarrow> int option outcome \<times> world" where
  \<comment> \<open>the loop \<open>for attempt in range(1, MAX_RETRIES + 1)\<close>\<close>
  "for_attempts scholar_url [] w = (Returns None, w)"
| "for_attempts scholar_url (attempt # rest) w =
     (case attempt_body scholar_url attempt w of
        (Inr citations, w1) \<Rightarrow> (Returns (Some citations), w1)
      | (Inl e, w1) \<Rightarrow>
          (let w2 = say [if e = RequestException \<or> e = HTTPError
                         then FailedNetwork attempt else Failed attempt e] w1
           in if attempt < MAX_RETRIES then for_attempts scholar_url rest (say [Retrying] w2)
              else (Exits 1, say [AllFailed] w2)))"

definition get_citation_count_direct :: "string \<Rightarrow> world \<Rightarrow> int option outcome \<times> world" where
  "get_citation_count_direct scholar_id w =
     for_attempts (scholar_url_of scholar_id) [1..<MAX_RETRIES + 1] w"

subsection \<open>\<open>update_yaml_file\<close> and \<open>update_index_html\<close>\<close>

definition shown :: "string option \<Rightarrow> string" where
  \<comment> \<open>what an f-string writes for \<open>match.group(2)\<close>\<close>
  "shown g = (case g of Some t \<Rightarrow> t | None \<Rightarrow> ''None'')"

text \<open>
  In both functions the replacement text is built, from \<open>new_count\<close>, after the pattern
  has been found and before the file is opened for writing; a count that \<open>str\<close> refuses
  raises \<open>ValueError\<close> there, inside the \<open>try\<close> block.
\<close>

definition update_yaml_file :: "string \<Rightarrow> int option \<Rightarrow> world \<Rightarrow> world" where
  "update_yaml_file file_path new_count w =
     (if files w file_path = None then say [YamlMissing file_path] w
      else case open_read w file_path of
          Inl e \<Rightarrow> say [YamlError e] w
        | Inr content \<Rightarrow>
            (case re_search flags_I yaml_pattern content of
               Some mt \<Rightarrow>
                 (let old_count = group mt 2
                  in case fmt new_count of
                       None \<Rightarrow> say [YamlError ValueError] w
                     | Some new_text \<Rightarrow>
                         (let new_content = re_sub flags_I yaml_pattern (count_template new_text) content 0
                          in case open_write w file_path new_content of
                               Inl e \<Rightarrow> say [YamlError e] w
                             | Inr w' \<Rightarrow>
                                 say [Updated (shown old_count) new_text, SuccessLine file_path] w'))
             | None \<Rightarrow>
                 (case re_search flags_I yaml_pattern2 content of
                    Some match2 \<Rightarrow>
                      (let old_count = group match2 2
                       in case fmt new_count of
                            None \<Rightarrow> say [YamlError ValueError] w
                          | Some new_text \<Rightarrow>
                              (let new_content =
                                     re_sub flags_I yaml_pattern2 (count_template new_text) content 1
                               in case open_write w file_path new_content of
                                    Inl e \<Rightarrow> say [YamlError e] w
                                  | Inr w' \<Rightarrow>
                                      say [Updated (shown old_count) new_text, SuccessLine file_path] w'))
                  | None \<Rightarrow> say [YamlNoEntry file_path] w)))"

definition update_index_html :: "string \<Rightarrow> int option \<Rightarrow> world \<Rightarrow> unit outcome \<times> world" where
  "update_index_html file_path new_count w =
     (case open_read w file_path of
        Inl e \<Rightarrow> (Exits 1, say [HtmlError e] w)
      | Inr content \<Rightarrow>
          (case re_search flags_I html_pattern content of
             Some mt \<Rightarrow>
               (let old_count = group mt 2
                in case fmt new_count of
                     None \<Rightarrow> (Exits 1, say [HtmlError ValueError] w)
                   | Some new_text \<Rightarrow>
                       (let new_content = re_sub flags_I html_pattern (count_template new_text) content 0
                        in case open_write w file_path new_content of
                             Inl e \<Rightarrow> (Exits 1, say [HtmlError e] w)
                           | Inr w' \<Rightarrow>
                               (Returns (),
                                say [HtmlUpdated (shown old_count) new_text, SuccessLine file_path] w')))
           | None \<Rightarrow> (Returns (), say [HtmlNoEntry file_path] w)))"

subsection \<open>\<open>main\<close>\<close>

text \<open>The result is the exit status of the process, 0 when \<open>main\<close> returns.\<close>

definition main :: "world \<Rightarrow> nat \<times> world" where
  "main w0 =
     (let w1 = say [Banner, ScholarIdLine SCHOLAR_ID, ScholarUrlLine SCHOLAR_URL] w0;
          w2 = say [if use_proxy w1 then KeyFound else NoKey] w1
      in case get_citation_count_direct SCHOLAR_ID w2 of
           (Exits status, w3) \<Rightarrow> (status, w3)
         | (Returns citation_count, w3) \<Rightarrow>
             (let w4 = update_yaml_file CONTENT_FILE citation_count w3
              in case update_index_html INDEX_FILE citation_count w4 of
                   (Exits status, w5) \<Rightarrow> (status, w5)
                 | (Returns u, w5) \<Rightarrow> (0, say [Complete] w5)))"


section \<open>Notions used to state the properties\<close>

subsection \<open>Attempts\<close>

definition attempt_result :: "fetch \<Rightarrow> exn + int" where
  \<comment> \<open>how an attempt ends, given what the network answers to its request\<close>
  "attempt_result f =
     (case f of
        Fails \<Rightarrow> Inl RequestException
      | Responds resp \<Rightarrow>
          if 400 \<le> status_code resp \<and> status_code resp < 600 then Inl HTTPError
          else extract_count resp)"

definition no_strategy_matches :: "response \<Rightarrow> bool" where
  \<comment> \<open>all three strategies fall through\<close>
  "no_strategy_matches resp =
     (method1 (soup resp) = None \<and> method2 (soup resp) = None \<and> method3 (resp_text resp) = None)"

subsection \<open>What a pattern accepts\<close>

text \<open>
  A pattern without groups, the texts and the characters a pattern can match, and the
  shape the three patch patterns share: a first group, the digits as group 2, a third
  group.
\<close>

fun nogroups :: "regex \<Rightarrow> bool" where
  "nogroups Eps = True"
| "nogroups (A a) = True"
| "nogroups (Seq r1 r2) = (nogroups r1 \<and> nogroups r2)"
| "nogroups (Star a) = True"
| "nogroups (Lazy a) = True"
| "nogroups (Plus a) = True"
| "nogroups (Opt r) = nogroups r"
| "nogroups (Group n r) = False"

fun lang :: "flags \<Rightarrow> regex \<Rightarrow> string \<Rightarrow> bool" where
  "lang fl Eps u = (u = [])"
| "lang fl (A a) u = (case u of [c] \<Rightarrow> atom_ok fl a c | _ \<Rightarrow> False)"
| "lang fl (Seq r1 r2) u = (\<exists>i\<le>length u. lang fl r1 (take i u) \<and> lang fl r2 (drop i u))"
| "lang fl (Star a) u = list_all (atom_ok fl a) u"
| "lang fl (Lazy a) u = list_all (atom_ok fl a) u"
| "lang fl (Plus a) u = (u \<noteq> [] \<and> list_all (atom_ok fl a) u)"
| "lang fl (Opt r) u = (u = [] \<or> lang fl r u)"
| "lang fl (Group n r) u = lang fl r u"

fun may_hold :: "flags \<Rightarrow> regex \<Rightarrow> char \<Rightarrow> bool" where
  \<comment> \<open>the character can occur in a text the pattern matches\<close>
  "may_hold fl Eps c = False"
| "may_hold fl (A a) c = atom_ok fl a c"
| "may_hold fl (Seq r1 r2) c = (may_hold fl r1 c \<or> may_hold fl r2 c)"
| "may_hold fl (Star a) c = atom_ok fl a c"
| "may_hold fl (Lazy a) c = atom_ok fl a c"
| "may_hold fl (Plus a) c = atom_ok fl a c"
| "may_hold fl (Opt r) c = may_hold fl r c"
| "may_hold fl (Group n r) c = may_hold fl r c"

definition field_pattern :: "regex \<Rightarrow> regex \<Rightarrow> regex" where
  "field_pattern a c = Seq (Group 1 a) (Seq (Group 2 (Plus Dig)) (Group 3 c))"

definition fieldlike :: "regex \<Rightarrow> bool" where
  "fieldlike r = (\<exists>a c. r = field_pattern a c \<and> nogroups a \<and> nogroups c)"

definition number_pattern :: regex where
  \<comment> \<open>the group \<open>(\d+(?:,\d+)?)\<close> of the fallback pattern\<close>
  "number_pattern = Seq (Plus Dig) (Opt (Seq (A (Lit CHR '','')) (Plus Dig)))"

definition starts_ci :: "string \<Rightarrow> string \<Rightarrow> bool" where
  \<comment> \<open>the text begins with the word, case ignored\<close>
  "starts_ci w s = (length w \<le> length s \<and> map lower (take (length w) s) = map lower w)"

fun continues :: "string \<Rightarrow> bool" where
  \<comment> \<open>the text begins with a digit, or with a comma and a digit\<close>
  "continues [] = False"
| "continues (c # cs) =
     (isdigit c \<or> (c = CHR '','' \<and> (case cs of [] \<Rightarrow> False | d # ds \<Rightarrow> isdigit d)))"

subsection \<open>Occurrences and the rewritten text\<close>

text \<open>
  The occurrences of a pattern in a text, from left to right and not overlapping, as
  \<open>re.finditer\<close> lists them for a pattern that matches no empty text; the text in
  which the digits of the given occurrences are replaced; the text each patch makes of
  the text it has read, the fields it rewrites there, and the characters it leaves
  stored in a file it can read and write.
\<close>

definition grp :: "match \<Rightarrow> nat \<Rightarrow> string" where
  \<comment> \<open>the text of a group, empty for a group that took no part\<close>
  "grp mt n = (case group mt n of Some g \<Rightarrow> g | None \<Rightarrow> [])"

definition field :: "match \<Rightarrow> string" where
  \<comment> \<open>the digits of an occurrence of a patch pattern\<close>
  "field mt = grp mt 2"

function occurrences :: "flags \<Rightarrow> regex \<Rightarrow> string \<Rightarrow> match list" where
  "occurrences fl r s =
     (case re_search fl r s of
        None \<Rightarrow> []
      | Some mt \<Rightarrow> mt # (if whole mt = [] then [] else occurrences fl r (post mt)))"
  by pat_completeness auto
termination
proof (relation "measure (\<lambda>(fl, r, s). length s)", goal_cases)
  case 1
  show ?case by simp
next
  case (2 fl r s mt)
  from re_search_split [OF 2(1)] 2(2) show ?case by simp
qed

declare occurrences.simps [simp del]

fun rewrite :: "string \<Rightarrow> match list \<Rightarrow> string \<Rightarrow> string" where
  "rewrite v [] s = s"
| "rewrite v (mt # mts) s = pre mt @ grp mt 1 @ v @ grp mt 3 @ rewrite v mts (post mt)"

definition html_text :: "string \<Rightarrow> string \<Rightarrow> string" where
  \<comment> \<open>what \<open>update_index_html\<close> makes of the text it has read\<close>
  "html_text content new_text =
     (case re_search flags_I html_pattern content of
        None \<Rightarrow> content
      | Some mt \<Rightarrow> re_sub flags_I html_pattern (count_template new_text) content 0)"

definition yaml_text :: "string \<Rightarrow> string \<Rightarrow> string" where
  \<comment> \<open>what \<open>update_yaml_file\<close> makes of the text it has read\<close>
  "yaml_text content new_text =
     (case re_search flags_I yaml_pattern content of
        Some mt \<Rightarrow> re_sub flags_I yaml_pattern (count_template new_text) content 0
      | None \<Rightarrow>
          (case re_search flags_I yaml_pattern2 content of
             Some match2 \<Rightarrow> re_sub flags_I yaml_pattern2 (count_template new_text) content 1
           | None \<Rightarrow> content))"

definition html_stored :: "string \<Rightarrow> string \<Rightarrow> string \<Rightarrow> string" where
  \<comment> \<open>the characters \<open>update_index_html\<close> leaves stored: a file without the pattern is not written\<close>
  "html_stored sep stored new_text =
     (if re_search flags_I html_pattern (universal_newlines stored) = None then stored
      else write_newlines sep (html_text (universal_newlines stored) new_text))"

definition yaml_stored :: "string \<Rightarrow> string \<Rightarrow> string \<Rightarrow> string" where
  \<comment> \<open>the characters \<open>update_yaml_file\<close> leaves stored: a file without the patterns is not written\<close>
  "yaml_stored sep stored new_text =
     (if re_search flags_I yaml_pattern (universal_newlines stored) = None \<and>
         re_search flags_I yaml_pattern2 (universal_newlines stored) = None then stored
      else write_newlines sep (yaml_text (universal_newlines stored) new_text))"

definition yaml_fields :: "string \<Rightarrow> string list" where
  \<comment> \<open>the fields \<open>update_yaml_file\<close> rewrites\<close>
  "yaml_fields content =
     (if re_search flags_I yaml_pattern content \<noteq> None
      then map field (occurrences flags_I yaml_pattern content)
      else map field (take 1 (occurrences flags_I yaml_pattern2 content)))"

definition html_fields :: "string \<Rightarrow> string list" where
  \<comment> \<open>the fields \<open>update_index_html\<close> rewrites\<close>
  "html_fields content = map field (occurrences flags_I html_pattern content)"

subsection \<open>Numbers and table rows\<close>

definition decimal :: "string \<Rightarrow> nat" where
  \<comment> \<open>the value of a string of digits\<close>
  "decimal ds = foldl (\<lambda>a c. 10 * a + digit_val c) 0 ds"

definition numeric :: "string \<Rightarrow> bool" where
  \<comment> \<open>digits with or without thousands separators\<close>
  "numeric t = (list_all (\<lambda>c. isdigit c \<or> c = CHR '','') t \<and> list_ex isdigit t)"

definition citations_row :: "node \<Rightarrow> bool" where
  \<comment> \<open>the test a row passes in the loop of the first strategy\<close>
  "citations_row row =
     (let cells = find_all (is_tag ''td'') row
      in length cells \<ge> 2 \<and> contains ''citations'' (map lower (get_text_strip (cells ! 0))))"

subsection \<open>Sample inputs\<close>

text \<open>
  Each sample page gives a text together with the tree \<open>html.parser\<close> builds for it.
\<close>

definition plain_page :: "string \<Rightarrow> response" where
  \<comment> \<open>a page without markup: its tree is the one string\<close>
  "plain_page t = \<lparr>status_code = 200, resp_text = t, soup = [Str t]\<rparr>"

definition quiet_world :: "(nat \<Rightarrow> fetch) \<Rightarrow> (string \<rightharpoonup> file_entry) \<Rightarrow> world" where
  \<comment> \<open>a start of the script on a POSIX system: no key, nothing requested, slept or printed yet\<close>
  "quiet_world nt fs =
     \<lparr>scraper_api_key = None, linesep = [newline], net = nt, rnd = (\<lambda>k. 0), requests = [],
      slept = [], files = fs, console = []\<rparr>"


definition rw_file :: "string \<Rightarrow> file_entry" where
  \<comment> \<open>a file that can be read and written\<close>
  "rw_file t = \<lparr>contents = t, readable = True, writable = True\<rparr>"

definition unlines :: "string list \<Rightarrow> string" where
  \<comment> \<open>the lines, each ended by a newline\<close>
  "unlines ls = concat (map (\<lambda>l. l @ [newline]) ls)"

definition index_sample :: "string \<Rightarrow> string" where
  \<open>index_sample count =
     ''<img alt="GOOGLE SCHOLAR CITATIONS" /><p class="count" data-count="'' @ count @ ''">0</p>''\<close>

definition yaml_sample :: "string \<Rightarrow> string" where
  \<open>yaml_sample count = unlines
     [''- name: "PAPERS"'', ''  image: p.png'', ''  count: "12"'',
      ''- name: "GOOGLE SCHOLAR CITATIONS"'', ''  image: g.png'', ''  count: "'' @ count @ ''"'',
      ''- name: "TALKS"'', ''  image: t.png'', ''  count: "3"'']\<close>

definition yaml_reordered :: "string \<Rightarrow> string \<Rightarrow> string" where
  \<comment> \<open>the one \<open>GOOGLE SCHOLAR CITATIONS\<close> entry has its count before its name\<close>
  \<open>yaml_reordered c1 c2 = unlines
     [''- count: "'' @ c1 @ ''"'', ''  name: "GOOGLE SCHOLAR CITATIONS"'', ''  image: g.png'',
      ''- name: "TALKS"'', ''  image: t.png'', ''  count: "'' @ c2 @ ''"'']\<close>

definition crlf :: "string \<Rightarrow> string" where
  \<comment> \<open>the text with every line ended by CR LF\<close>
  "crlf t = write_newlines [carriage_return, newline] t"

definition yaml_twice :: "string \<Rightarrow> string \<Rightarrow> string" where
  \<open>yaml_twice c1 c2 = unlines
     [''- name: "GOOGLE SCHOLAR CITATIONS"'', ''  image: g.png'', ''  count: "'' @ c1 @ ''"'',
      ''- name: "Google Scholar Citations"'', ''  image: h.png'', ''  count: "'' @ c2 @ ''"'']\<close>

definition yaml_loose :: "string \<Rightarrow> string \<Rightarrow> string" where
  \<open>yaml_loose c1 c2 = unlines
     [''- name: "GOOGLE SCHOLAR CITATIONS"'', ''  count: "'' @ c1 @ ''"'',
      ''- name: "GOOGLE SCHOLAR CITATIONS"'', ''  count: "'' @ c2 @ ''"'']\<close>

definition table_page :: response where
  \<open>table_page =
     \<lparr>status_code = 200,
      resp_text = ''<table id="gsc_rsb_st"><tr><th></th><th>All</th></tr><tr><td><a>Citations</a></td><td class="gsc_rsb_std">1,234</td><td class="gsc_rsb_std">567</td></tr></table>'',
      soup = [Tag ''table'' [(''id'', ''gsc_rsb_st'')]
               [Tag ''tr'' [] [Tag ''th'' [] [], Tag ''th'' [] [Str ''All'']],
                Tag ''tr'' []
                  [Tag ''td'' [] [Tag ''a'' [] [Str ''Citations'']],
                   Tag ''td'' [(''class'', ''gsc_rsb_std'')] [Str ''1,234''],
                   Tag ''td'' [(''class'', ''gsc_rsb_std'')] [Str ''567'']]]]\<rparr>\<close>

definition negative_cell_page :: response where
  \<open>negative_cell_page =
     \<lparr>status_code = 200,
      resp_text = ''<td class="gsc_rsb_std">-5</td>'',
      soup = [Tag ''td'' [(''class'', ''gsc_rsb_std'')] [Str ''-5'']]\<rparr>\<close>

section \<open>Checks of the text functions\<close>

lemma lower_table: "map lower uppercase = lowercase" "map lower lowercase = lowercase"
  by (simp_all add: uppercase_def lowercase_def)

lemma lower_other:
  "map lower '' !#$%&()*+,-./0123456789:;<=>?@[]^_`{|}~'' = '' !#$%&()*+,-./0123456789:;<=>?@[]^_`{|}~''"
  by simp

section \<open>Numbers: what \<open>int\<close> reads and \<open>str\<close> writes\<close>

lemma digit_not_int_space: "isdigit c \<Longrightarrow> \<not> int_space c"
  by (auto simp: isdigit_def int_space_def)

lemma digit_not_sign: "isdigit c \<Longrightarrow> c \<noteq> CHR ''-'' \<and> c \<noteq> CHR ''+'' \<and> c \<noteq> CHR '',''"
  by (auto simp: isdigit_def)

lemma digit_val_le: "isdigit c \<Longrightarrow> digit_val c \<le> 9"
  by (auto simp: isdigit_def digit_val_def)

lemma digits_acc_digits:
  "list_all isdigit ds \<Longrightarrow> digits_acc acc ds = Some (foldl (\<lambda>a c. 10 * a + digit_val c) acc ds)"
  by (induction ds arbitrary: acc) simp_all

lemma py_digits_digits:
  "ds \<noteq> [] \<Longrightarrow> list_all isdigit ds \<Longrightarrow> py_digits ds = Some (decimal ds)"
  by (cases ds) (simp_all add: py_digits_def decimal_def digits_acc_digits)

lemma int_strip_digits:
  assumes "ds \<noteq> []" "list_all isdigit ds"
  shows "int_strip ds = ds"
proof -
  from assms have "\<not> int_space (hd ds)" "\<not> int_space (last ds)"
    by (auto simp: list_all_iff digit_not_int_space)
  with assms(1) have "dropWhile int_space (rev ds) = rev ds" "dropWhile int_space ds = ds"
    by (simp_all add: dropWhile_eq_self_iff hd_rev)
  then show ?thesis by (simp add: int_strip_def)
qed

lemma py_int_digits:
  assumes "ds \<noteq> []" "list_all isdigit ds" "length ds \<le> int_max_str_digits"
  shows "py_int ds = Some (int (decimal ds))"
proof -
  from assms obtain c cs where ds: "ds = c # cs" and c: "isdigit c" by (cases ds) auto
  from assms(2) have "filter isdigit ds = ds" by (simp add: list_all_iff)
  with assms(3) have "\<not> length (filter isdigit ds) > int_max_str_digits" by simp
  with digit_not_sign [OF c] int_strip_digits [OF assms(1,2)] py_digits_digits [OF assms(1,2)] ds
  show ?thesis by (simp add: py_int_def)
qed

lemma to_count_numeric:
  assumes "numeric t" and "length (filter isdigit t) \<le> int_max_str_digits"
  shows "to_count t = Inr (int (decimal (remove_commas t)))"
proof -
  from assms(1) have eq: "remove_commas t = filter isdigit t"
    unfolding remove_commas_def numeric_def list_all_iff
    by (intro filter_cong refl) (auto dest: digit_not_sign)
  then have "list_all isdigit (remove_commas t)" by (simp add: list_all_iff)
  moreover from assms(1) eq have "remove_commas t \<noteq> []"
    by (auto simp: numeric_def list_ex_iff filter_empty_conv)
  moreover from assms(2) eq have "length (remove_commas t) \<le> int_max_str_digits" by simp
  ultimately show ?thesis by (simp add: to_count_def py_int_digits)
qed

text \<open>
  A number that \<open>int\<close> has read has no more digits than the text it was read from, so
  \<open>str\<close> writes it.
\<close>

lemma digits_acc_bound:
  "digits_acc acc cs = Some v \<Longrightarrow> v < (acc + 1) * 10 ^ length (filter isdigit cs)"
proof (induction acc cs rule: digits_acc.induct)
  case (1 acc)
  then show ?case by simp
next
  case (2 acc c cs)
  show ?case
  proof (cases "isdigit c")
    case True
    with 2 have "v < (10 * acc + digit_val c + 1) * 10 ^ length (filter isdigit cs)" by simp
    also from digit_val_le [OF True]
    have "\<dots> \<le> (10 * acc + 10) * 10 ^ length (filter isdigit cs)"
      by (intro mult_right_mono) simp_all
    finally show ?thesis using True by (simp add: algebra_simps)
  next
    case False
    with "2.prems" obtain d ds where cs: "cs = d # ds" and d: "isdigit d"
      and run: "digits_acc (10 * acc + digit_val d) ds = Some v"
      by (cases cs) (auto split: if_splits)
    from False "2.prems" have u: "c = CHR ''_''" by (auto split: if_splits)
    from "2.IH"(2) [OF False u cs d run]
    have "v < (10 * acc + digit_val d + 1) * 10 ^ length (filter isdigit ds)" .
    also from digit_val_le [OF d]
    have "\<dots> \<le> (10 * acc + 10) * 10 ^ length (filter isdigit ds)"
      by (intro mult_right_mono) simp_all
    finally show ?thesis using False cs d by (simp add: algebra_simps)
  qed
qed

lemma py_digits_bound:
  assumes "py_digits s = Some v"
  shows "v < 10 ^ length (filter isdigit s) \<and> 0 < length (filter isdigit s)"
proof -
  from assms obtain c cs where s: "s = c # cs" and c: "isdigit c"
    and run: "digits_acc (digit_val c) cs = Some v"
    by (cases s) (auto simp: py_digits_def split: if_splits)
  from digits_acc_bound [OF run] have "v < (digit_val c + 1) * 10 ^ length (filter isdigit cs)" .
  also from digit_val_le [OF c] have "\<dots> \<le> 10 * 10 ^ length (filter isdigit cs)"
    by (intro mult_right_mono) simp_all
  finally show ?thesis using s c by simp
qed

lemma nat_str_length: "n < 10 ^ k \<Longrightarrow> 0 < k \<Longrightarrow> length (nat_str n) \<le> k"
proof (induction n arbitrary: k rule: nat_str.induct)
  case (1 n)
  show ?case
  proof (cases "n < 10")
    case True
    with "1.prems" show ?thesis by (simp add: nat_str.simps [of n])
  next
    case False
    from "1.prems" obtain k' where k: "k = Suc k'" by (cases k) simp_all
    with "1.prems" have "n div 10 < 10 ^ k'" by (simp add: less_mult_imp_div_less mult.commute)
    moreover from False k "1.prems" have "0 < k'" by (cases k') simp_all
    ultimately have "length (nat_str (n div 10)) \<le> k'" using "1.IH" [OF False] by blast
    with False k show ?thesis by (simp add: nat_str.simps [of n])
  qed
qed

lemma filter_dropWhile_length: "length (filter P (dropWhile Q xs)) \<le> length (filter P xs)"
  by (induction xs) simp_all

lemma int_strip_digits_le: "length (filter isdigit (int_strip s)) \<le> length (filter isdigit s)"
proof -
  have "length (filter isdigit (int_strip s))
        \<le> length (filter isdigit (rev (dropWhile int_space (rev s))))"
    unfolding int_strip_def by (rule filter_dropWhile_length)
  also have "\<dots> = length (filter isdigit (dropWhile int_space (rev s)))"
    by (simp add: rev_filter [symmetric])
  also have "\<dots> \<le> length (filter isdigit (rev s))" by (rule filter_dropWhile_length)
  also have "\<dots> = length (filter isdigit s)" by (simp add: rev_filter [symmetric])
  finally show ?thesis .
qed

lemma py_int_printable:
  assumes "py_int s = Some n"
  shows "\<exists>t. py_str n = Some t"
proof -
  from assms have guard: "length (filter isdigit s) \<le> int_max_str_digits"
    by (auto simp: py_int_def split: if_splits)
  from assms obtain c cs where st: "int_strip s = c # cs"
    by (cases "int_strip s") (auto simp: py_int_def split: if_splits)
  have "\<exists>u v. py_digits u = Some v \<and> nat \<bar>n\<bar> = v \<and>
          length (filter isdigit u) \<le> length (filter isdigit (c # cs))"
  proof (cases "c = CHR ''-''")
    case True
    with assms guard st obtain v where "py_digits cs = Some v" "n = - int v"
      by (auto simp: py_int_def)
    then show ?thesis by (intro exI [of _ cs] exI [of _ v]) simp
  next
    case False
    show ?thesis
    proof (cases "c = CHR ''+''")
      case True
      with assms guard st obtain v where "py_digits cs = Some v" "n = int v"
        by (auto simp: py_int_def)
      then show ?thesis by (intro exI [of _ cs] exI [of _ v]) simp
    next
      case plus: False
      with False assms guard st obtain v where "py_digits (c # cs) = Some v" "n = int v"
        by (auto simp: py_int_def)
      then show ?thesis by (intro exI [of _ "c # cs"] exI [of _ v]) simp
    qed
  qed
  then obtain u v where u: "py_digits u = Some v" and v: "nat \<bar>n\<bar> = v"
    and le: "length (filter isdigit u) \<le> length (filter isdigit (c # cs))" by blast
  from py_digits_bound [OF u] have "length (nat_str v) \<le> length (filter isdigit u)"
    by (intro nat_str_length) simp_all
  also note le
  also from st int_strip_digits_le [of s] have "length (filter isdigit (c # cs)) \<le> length (filter isdigit s)"
    by simp
  also note guard
  finally have "length (nat_str (nat \<bar>n\<bar>)) \<le> int_max_str_digits" using v by simp
  then show ?thesis by (simp add: py_str_def Let_def)
qed

lemma to_count_printable: "to_count t = Inr n \<Longrightarrow> \<exists>u. fmt (Some n) = Some u"
  by (auto simp: to_count_def fmt_def split: option.splits dest: py_int_printable)

section \<open>The retry loop\<close>

lemma say_fields [simp]:
  "net (say ls w) = net w" "files (say ls w) = files w" "requests (say ls w) = requests w"
  "scraper_api_key (say ls w) = scraper_api_key w" "slept (say ls w) = slept w"
  "rnd (say ls w) = rnd w" "console (say ls w) = console w @ ls" "linesep (say ls w) = linesep w"
  by (simp_all add: say_def)

lemma sleep_fields [simp]:
  "net (sleep d w) = net w" "files (sleep d w) = files w" "requests (sleep d w) = requests w"
  "scraper_api_key (sleep d w) = scraper_api_key w" "slept (sleep d w) = slept w @ [d]"
  "rnd (sleep d w) = rnd w" "console (sleep d w) = console w" "linesep (sleep d w) = linesep w"
  by (simp_all add: sleep_def)

lemma attempt_body_fst:
  "fst (attempt_body url a w) = attempt_result (net w (length (requests w)))"
  by (simp add: attempt_body_def attempt_result_def Let_def split: fetch.splits)

lemma attempt_body_snd:
  "net (snd (attempt_body url a w)) = net w"
  "files (snd (attempt_body url a w)) = files w"
  "length (requests (snd (attempt_body url a w))) = Suc (length (requests w))"
  "scraper_api_key (snd (attempt_body url a w)) = scraper_api_key w"
  "linesep (snd (attempt_body url a w)) = linesep w"
  by (simp_all add: attempt_body_def Let_def split: fetch.splits)

text \<open>
  \<open>j\<close> failed attempts followed by a successful one: the loop returns the count of the
  successful one, having sent \<open>j + 1\<close> requests.
\<close>

lemma loop_success:
  "1 \<le> a \<Longrightarrow> a + j \<le> MAX_RETRIES \<Longrightarrow>
   (\<forall>i<j. isl (attempt_result (net w (length (requests w) + i)))) \<Longrightarrow>
   attempt_result (net w (length (requests w) + j)) = Inr n \<Longrightarrow>
   \<exists>w'. for_attempts url [a..<MAX_RETRIES + 1] w = (Returns (Some n), w') \<and>
        length (requests w') = length (requests w) + j + 1 \<and> files w' = files w \<and> net w' = net w \<and>
        linesep w' = linesep w"
proof (induction j arbitrary: a w)
  case 0
  obtain res w1 where ab: "attempt_body url a w = (res, w1)" by (cases "attempt_body url a w")
  with attempt_body_fst [of url a w] 0 have res: "res = Inr n" by simp
  from ab attempt_body_snd [of url a w] have "length (requests w1) = Suc (length (requests w))"
    "files w1 = files w" "net w1 = net w" "linesep w1 = linesep w" by simp_all
  moreover from 0 have "[a..<MAX_RETRIES + 1] = a # [Suc a..<MAX_RETRIES + 1]"
    by (simp add: upt_conv_Cons)
  ultimately show ?case using ab res by simp
next
  case (Suc j)
  obtain res w1 where ab: "attempt_body url a w = (res, w1)" by (cases "attempt_body url a w")
  from Suc.prems(3) have "isl (attempt_result (net w (length (requests w) + 0)))" by blast
  with attempt_body_fst [of url a w] ab have "isl res" by simp
  then obtain e where res: "res = Inl e" by (cases res) simp_all
  from ab attempt_body_snd [of url a w] have w1: "length (requests w1) = Suc (length (requests w))"
    "files w1 = files w" "net w1 = net w" "linesep w1 = linesep w" by simp_all
  from Suc.prems have lt: "a < MAX_RETRIES" by simp
  from Suc.prems have up: "[a..<MAX_RETRIES + 1] = a # [Suc a..<MAX_RETRIES + 1]"
    by (simp add: upt_conv_Cons)
  let ?w2 = "say [Retrying] (say [if e = RequestException \<or> e = HTTPError
                         then FailedNetwork a else Failed a e] w1)"
  have step: "for_attempts url [a..<MAX_RETRIES + 1] w = for_attempts url [Suc a..<MAX_RETRIES + 1] ?w2"
    using ab res lt up by (simp add: Let_def)
  have "\<exists>w'. for_attempts url [Suc a..<MAX_RETRIES + 1] ?w2 = (Returns (Some n), w') \<and>
        length (requests w') = length (requests ?w2) + j + 1 \<and> files w' = files ?w2 \<and> net w' = net ?w2 \<and>
        linesep w' = linesep ?w2"
  proof (rule Suc.IH)
    show "1 \<le> Suc a" by simp
    show "Suc a + j \<le> MAX_RETRIES" using Suc.prems by simp
    show "\<forall>i<j. isl (attempt_result (net ?w2 (length (requests ?w2) + i)))"
      using Suc.prems(3) w1 by (auto simp: less_Suc_eq_0_disj)
    show "attempt_result (net ?w2 (length (requests ?w2) + j)) = Inr n"
      using Suc.prems(4) w1 by simp
  qed
  with step w1 show ?case by auto
qed

text \<open>
  Every attempt up to the last one fails: the loop ends the process with status 1 after
  the last attempt, and no file has changed.
\<close>

lemma loop_exhaust:
  "1 \<le> a \<Longrightarrow> a + j = MAX_RETRIES \<Longrightarrow>
   (\<forall>i\<le>j. isl (attempt_result (net w (length (requests w) + i)))) \<Longrightarrow>
   \<exists>w'. for_attempts url [a..<MAX_RETRIES + 1] w = (Exits 1, w') \<and>
        length (requests w') = length (requests w) + j + 1 \<and> files w' = files w \<and> net w' = net w \<and>
        linesep w' = linesep w"
proof (induction j arbitrary: a w)
  case 0
  obtain res w1 where ab: "attempt_body url a w = (res, w1)" by (cases "attempt_body url a w")
  from 0 have "isl (attempt_result (net w (length (requests w) + 0)))" by blast
  with attempt_body_fst [of url a w] ab have "isl res" by simp
  then obtain e where res: "res = Inl e" by (cases res) simp_all
  from ab attempt_body_snd [of url a w] have "length (requests w1) = Suc (length (requests w))"
    "files w1 = files w" "net w1 = net w" "linesep w1 = linesep w" by simp_all
  moreover from 0 have "[a..<MAX_RETRIES + 1] = [a]"
    by (simp add: upt_conv_Cons)
  ultimately show ?case using ab res 0 by (simp add: Let_def)
next
  case (Suc j)
  obtain res w1 where ab: "attempt_body url a w = (res, w1)" by (cases "attempt_body url a w")
  from Suc.prems(3) have "isl (attempt_result (net w (length (requests w) + 0)))" by blast
  with attempt_body_fst [of url a w] ab have "isl res" by simp
  then obtain e where res: "res = Inl e" by (cases res) simp_all
  from ab attempt_body_snd [of url a w] have w1: "length (requests w1) = Suc (length (requests w))"
    "files w1 = files w" "net w1 = net w" "linesep w1 = linesep w" by simp_all
  from Suc.prems have lt: "a < MAX_RETRIES" by simp
  from Suc.prems have up: "[a..<MAX_RETRIES + 1] = a # [Suc a..<MAX_RETRIES + 1]"
    by (simp add: upt_conv_Cons)
  let ?w2 = "say [Retrying] (say [if e = RequestException \<or> e = HTTPError
                         then FailedNetwork a else Failed a e] w1)"
  have step: "for_attempts url [a..<MAX_RETRIES + 1] w = for_attempts url [Suc a..<MAX_RETRIES + 1] ?w2"
    using ab res lt up by (simp add: Let_def)
  have "\<exists>w'. for_attempts url [Suc a..<MAX_RETRIES + 1] ?w2 = (Exits 1, w') \<and>
        length (requests w') = length (requests ?w2) + j + 1 \<and> files w' = files ?w2 \<and> net w' = net ?w2 \<and>
        linesep w' = linesep ?w2"
  proof (rule Suc.IH)
    show "1 \<le> Suc a" by simp
    show "Suc a + j = MAX_RETRIES" using Suc.prems by simp
    show "\<forall>i\<le>j. isl (attempt_result (net ?w2 (length (requests ?w2) + i)))"
    proof (intro allI impI)
      fix i assume "i \<le> j"
      then have "Suc i \<le> Suc j" by simp
      with Suc.prems(3) have "isl (attempt_result (net w (length (requests w) + Suc i)))" by blast
      with w1 show "isl (attempt_result (net ?w2 (length (requests ?w2) + i)))" by simp
    qed
  qed
  with step w1 show ?case by auto
qed




lemma fetch_after_failures:
  assumes "j < MAX_RETRIES"
    and "\<forall>i<j. isl (attempt_result (net w (length (requests w) + i)))"
    and "attempt_result (net w (length (requests w) + j)) = Inr n"
  shows "\<exists>w'. get_citation_count_direct scholar_id w = (Returns (Some n), w') \<and>
        length (requests w') = length (requests w) + j + 1 \<and> files w' = files w \<and> net w' = net w \<and>
        linesep w' = linesep w"
  unfolding get_citation_count_direct_def
  by (rule loop_success) (use assms in simp_all)

lemma fetch_exhausted:
  assumes "\<forall>i<MAX_RETRIES. isl (attempt_result (net w (length (requests w) + i)))"
  shows "\<exists>w'. get_citation_count_direct scholar_id w = (Exits 1, w') \<and>
        length (requests w') = length (requests w) + MAX_RETRIES \<and> files w' = files w \<and> net w' = net w \<and>
        linesep w' = linesep w"
proof -
  have "\<exists>w'. for_attempts (scholar_url_of scholar_id) [1..<MAX_RETRIES + 1] w = (Exits 1, w') \<and>
        length (requests w') = length (requests w) + 4 + 1 \<and> files w' = files w \<and> net w' = net w \<and>
        linesep w' = linesep w"
    by (rule loop_exhaust) (use assms in \<open>simp_all add: MAX_RETRIES_def\<close>)
  then obtain w' where 1: "for_attempts (scholar_url_of scholar_id) [1..<MAX_RETRIES + 1] w = (Exits 1, w')"
    and 2: "length (requests w') = length (requests w) + 4 + 1" and 3: "files w' = files w" "net w' = net w" "linesep w' = linesep w"
    by blast
  from 2 have "length (requests w') = length (requests w) + MAX_RETRIES" by (simp add: MAX_RETRIES_def)
  with 1 3 show ?thesis unfolding get_citation_count_direct_def by blast
qed

text \<open>
  C7. The retry budget is exactly 5 attempts. When the first four attempts fail and the
  fifth succeeds, \<open>get_citation_count_direct\<close> returns the fifth attempt's count and has
  sent exactly 5 requests. When five attempts in a row fail, the process exits with
  status 1, having sent exactly 5 requests: there is no sixth.
\<close>

theorem retry_budget_is_five:
  "((\<forall>i<4. isl (attempt_result (net w (length (requests w) + i)))) \<and>
    attempt_result (net w (length (requests w) + 4)) = Inr n \<longrightarrow>
      (\<exists>w'. get_citation_count_direct scholar_id w = (Returns (Some n), w') \<and>
            length (requests w') = length (requests w) + 5)) \<and>
   ((\<forall>i<5. isl (attempt_result (net w (length (requests w) + i)))) \<longrightarrow>
      (\<exists>w'. get_citation_count_direct scholar_id w = (Exits 1, w') \<and>
            length (requests w') = length (requests w) + 5))"
proof (intro conjI impI)
  assume a: "(\<forall>i<4. isl (attempt_result (net w (length (requests w) + i)))) \<and>
    attempt_result (net w (length (requests w) + 4)) = Inr n"
  have "4 < MAX_RETRIES" by (simp add: MAX_RETRIES_def)
  from fetch_after_failures [OF this, of w n scholar_id] a
  obtain w' where "get_citation_count_direct scholar_id w = (Returns (Some n), w')"
    and "length (requests w') = length (requests w) + 4 + 1" by blast
  then have "get_citation_count_direct scholar_id w = (Returns (Some n), w') \<and>
            length (requests w') = length (requests w) + 5" by simp
  then show "\<exists>w'. get_citation_count_direct scholar_id w = (Returns (Some n), w') \<and>
            length (requests w') = length (requests w) + 5" ..
next
  assume a: "\<forall>i<5. isl (attempt_result (net w (length (requests w) + i)))"
  then have "\<forall>i<MAX_RETRIES. isl (attempt_result (net w (length (requests w) + i)))"
    by (simp add: MAX_RETRIES_def)
  from fetch_exhausted [OF this, of scholar_id]
  obtain w' where "get_citation_count_direct scholar_id w = (Exits 1, w')"
    and "length (requests w') = length (requests w) + MAX_RETRIES" by blast
  then have "get_citation_count_direct scholar_id w = (Exits 1, w') \<and>
            length (requests w') = length (requests w) + 5" by (simp add: MAX_RETRIES_def)
  then show "\<exists>w'. get_citation_count_direct scholar_id w = (Exits 1, w') \<and>
            length (requests w') = length (requests w) + 5" ..
qed

lemma plain_page_count: "extract_count (plain_page ''Citations 12'') = Inr 12"
  by code_simp

theorem retry_budget_is_five_witness:
  "(\<exists>w'. get_citation_count_direct SCHOLAR_ID
            (quiet_world (\<lambda>k. if k = 4 then Responds (plain_page ''Citations 12'') else Fails) Map.empty)
          = (Returns (Some 12), w') \<and> length (requests w') = 5) \<and>
   (\<exists>w'. get_citation_count_direct SCHOLAR_ID (quiet_world (\<lambda>k. Fails) Map.empty) = (Exits 1, w') \<and>
         length (requests w') = 5)"
proof
  let ?w = "quiet_world (\<lambda>k. if k = 4 then Responds (plain_page ''Citations 12'') else Fails) Map.empty"
  have "(\<forall>i<4. isl (attempt_result (net ?w (length (requests ?w) + i)))) \<and>
        attempt_result (net ?w (length (requests ?w) + 4)) = Inr 12"
    by (simp add: quiet_world_def attempt_result_def plain_page_count) (simp add: plain_page_def)
  with retry_budget_is_five [of ?w 12 SCHOLAR_ID]
  show "\<exists>w'. get_citation_count_direct SCHOLAR_ID ?w = (Returns (Some 12), w') \<and> length (requests w') = 5"
    by (simp add: quiet_world_def)
next
  let ?w = "quiet_world (\<lambda>k. Fails) Map.empty"
  have "\<forall>i<5. isl (attempt_result (net ?w (length (requests ?w) + i)))"
    by (simp add: quiet_world_def attempt_result_def)
  with retry_budget_is_five [of ?w _ SCHOLAR_ID]
  show "\<exists>w'. get_citation_count_direct SCHOLAR_ID ?w = (Exits 1, w') \<and> length (requests w') = 5"
    by (simp add: quiet_world_def)
qed


section \<open>Where a returned count comes from\<close>

lemma descendants_trans:
  "y \<in> set (descendants z) \<Longrightarrow> x \<in> set (descendants y) \<Longrightarrow> x \<in> set (descendants z)"
  by (induction z) auto

lemma soup_nodes_closed:
  "y \<in> set (soup_nodes sp) \<Longrightarrow> x \<in> set (descendants y) \<Longrightarrow> x \<in> set (soup_nodes sp)"
  by (auto simp: soup_nodes_def dest: descendants_trans)

lemma scan_rows_cell:
  "scan_rows rows = Some res \<Longrightarrow>
   \<exists>row\<in>set rows. \<exists>cell\<in>set (find_all (is_tag ''td'') row). res = to_count (get_text_strip cell)"
proof (induction rows)
  case Nil
  then show ?case by simp
next
  case (Cons row rows)
  let ?cells = "find_all (is_tag ''td'') row"
  show ?case
  proof (cases "length ?cells \<ge> 2 \<and> contains ''citations'' (map lower (get_text_strip (?cells ! 0)))")
    case True
    with Cons.prems have "res = to_count (get_text_strip (?cells ! 1))" by (simp add: Let_def)
    moreover from True have "?cells ! 1 \<in> set ?cells" by simp
    ultimately show ?thesis by auto
  next
    case False
    with Cons.prems have "scan_rows rows = Some res" by (auto simp: Let_def split: if_splits)
    from Cons.IH [OF this] show ?thesis by auto
  qed
qed

lemma soup_find_member: "soup_find P sp = Some n \<Longrightarrow> n \<in> set (soup_nodes sp) \<and> P n"
proof -
  assume "soup_find P sp = Some n"
  then have "n \<in> set (soup_find_all P sp)"
    by (auto simp: soup_find_def split: list.splits)
  then show ?thesis by (simp add: soup_find_all_def)
qed

lemma method1_cell:
  assumes "method1 sp = Some res"
  shows "\<exists>cell\<in>set (soup_nodes sp). is_tag ''td'' cell \<and> res = to_count (get_text_strip cell)"
proof -
  from assms obtain tbl where t: "soup_find (\<lambda>n. is_tag ''table'' n \<and> has_id ''gsc_rsb_st'' n) sp = Some tbl"
    and r: "scan_rows (find_all (is_tag ''tr'') tbl) = Some res"
    by (auto simp: method1_def split: option.splits)
  from scan_rows_cell [OF r] obtain row cell where row: "row \<in> set (find_all (is_tag ''tr'') tbl)"
    and cell: "cell \<in> set (find_all (is_tag ''td'') row)" and res: "res = to_count (get_text_strip cell)"
    by blast
  from soup_find_member [OF t] have "tbl \<in> set (soup_nodes sp)" by simp
  moreover from row have "row \<in> set (descendants tbl)" by (simp add: find_all_def)
  ultimately have "row \<in> set (soup_nodes sp)" by (rule soup_nodes_closed)
  moreover from cell have "cell \<in> set (descendants row)" "is_tag ''td'' cell"
    by (simp_all add: find_all_def)
  ultimately have "cell \<in> set (soup_nodes sp)" "is_tag ''td'' cell"
    by (auto intro: soup_nodes_closed)
  with res show ?thesis by blast
qed

lemma method2_cell:
  assumes "method2 sp = Some res"
  shows "\<exists>cell\<in>set (soup_nodes sp). is_tag ''td'' cell \<and> res = to_count (get_text_strip cell)"
proof -
  let ?cells = "soup_find_all (\<lambda>n. is_tag ''td'' n \<and> has_class ''gsc_rsb_std'' n) sp"
  from assms have ne: "?cells \<noteq> []" and res: "res = to_count (get_text_strip (?cells ! 0))"
    by (auto simp: method2_def Let_def split: if_splits)
  from ne have "?cells ! 0 \<in> set ?cells" by simp
  then have "?cells ! 0 \<in> set (soup_nodes sp)" "is_tag ''td'' (?cells ! 0)"
    by (simp_all add: soup_find_all_def)
  with res show ?thesis by blast
qed

lemma extract_count_source:
  assumes "extract_count resp = Inr n"
  shows "(\<exists>cell\<in>set (soup_nodes (soup resp)). is_tag ''td'' cell \<and>
            to_count (get_text_strip cell) = Inr n \<and>
            (method1 (soup resp) = Some (Inr n) \<or> method2 (soup resp) = Some (Inr n))) \<or>
         (method1 (soup resp) = None \<and> method2 (soup resp) = None \<and>
          method3 (resp_text resp) = Some (Inr n))"
proof (cases "method1 (soup resp)")
  case (Some res)
  with assms have "res = Inr n" by (simp add: extract_count_def)
  with method1_cell [OF Some] Some show ?thesis by auto
next
  case None
  show ?thesis
  proof (cases "method2 (soup resp)")
    case (Some res)
    with None assms have "res = Inr n" by (simp add: extract_count_def)
    with method2_cell [OF Some] Some show ?thesis by auto
  next
    case n2: None
    with None assms have "method3 (resp_text resp) = Some (Inr n)"
      by (auto simp: extract_count_def split: option.splits if_splits)
    with None n2 show ?thesis by simp
  qed
qed

lemma method3_source: "method3 t = Some (Inr n) \<Longrightarrow> \<exists>g. to_count g = Inr n"
  by (auto simp: method3_def split: option.splits)

text \<open>
  The count an attempt returns was read by \<open>int\<close>, so \<open>str\<close> writes it: the lines that
  print it cannot fail, and the replacement text of the patches can be built.
\<close>

lemma extract_count_printable:
  assumes "extract_count resp = Inr n"
  shows "\<exists>u. fmt (Some n) = Some u"
  using extract_count_source [OF assms] by (auto dest: to_count_printable method3_source)

lemma attempt_result_printable: "attempt_result f = Inr n \<Longrightarrow> \<exists>u. fmt (Some n) = Some u"
  by (cases f) (auto simp: attempt_result_def split: if_splits dest: extract_count_printable)

section \<open>Failed attempts: block pages and pages without a count\<close>

lemma no_match_fails: "no_strategy_matches resp \<Longrightarrow> isl (attempt_result (Responds resp))"
  by (simp add: no_strategy_matches_def attempt_result_def extract_count_def)

lemma main_exits_when_fetch_exhausted:
  assumes "\<forall>i<MAX_RETRIES. isl (attempt_result (net w (length (requests w) + i)))"
  shows "\<exists>w'. main w = (1, w') \<and> files w' = files w \<and>
              length (requests w') = length (requests w) + MAX_RETRIES"
proof -
  let ?w2 = "say [if use_proxy (say [Banner, ScholarIdLine SCHOLAR_ID, ScholarUrlLine SCHOLAR_URL] w)
                  then KeyFound else NoKey]
               (say [Banner, ScholarIdLine SCHOLAR_ID, ScholarUrlLine SCHOLAR_URL] w)"
  from assms have "\<forall>i<MAX_RETRIES. isl (attempt_result (net ?w2 (length (requests ?w2) + i)))"
    by simp
  from fetch_exhausted [OF this, of SCHOLAR_ID]
  obtain w' where 1: "get_citation_count_direct SCHOLAR_ID ?w2 = (Exits 1, w')"
    and 2: "length (requests w') = length (requests ?w2) + MAX_RETRIES" "files w' = files ?w2"
    by blast
  from 1 have "main w = (1, w')" by (simp add: main_def Let_def)
  with 2 show ?thesis by simp
qed






text \<open>
  C2, as the code has it. A fetched document on which no strategy matches makes the
  attempt fail like any other failure. After \<open>j\<close> such documents, with \<open>j\<close> below the
  budget, a further request is sent, and if that attempt succeeds the function returns
  its count, \<open>j + 1\<close> requests having been sent. Only when all \<open>MAX_RETRIES\<close> attempts
  have met such a document does the process exit, with status 1, and then no file has
  been modified.
\<close>

theorem unparsable_page_is_retried:
  "((\<forall>i<j. \<exists>resp. net w (length (requests w) + i) = Responds resp \<and> no_strategy_matches resp) \<and>
    j < MAX_RETRIES \<and> attempt_result (net w (length (requests w) + j)) = Inr n \<longrightarrow>
      (\<exists>w'. get_citation_count_direct scholar_id w = (Returns (Some n), w') \<and>
            length (requests w') = length (requests w) + j + 1)) \<and>
   ((\<forall>i<MAX_RETRIES. \<exists>resp. net w (length (requests w) + i) = Responds resp \<and>
                             no_strategy_matches resp) \<longrightarrow>
      (\<exists>w'. main w = (1, w') \<and> files w' = files w \<and>
            length (requests w') = length (requests w) + MAX_RETRIES))"
proof (intro conjI impI)
  assume a: "(\<forall>i<j. \<exists>resp. net w (length (requests w) + i) = Responds resp \<and> no_strategy_matches resp) \<and>
    j < MAX_RETRIES \<and> attempt_result (net w (length (requests w) + j)) = Inr n"
  then have "\<forall>i<j. isl (attempt_result (net w (length (requests w) + i)))"
    using no_match_fails by fastforce
  with a fetch_after_failures [of j w n scholar_id]
  show "\<exists>w'. get_citation_count_direct scholar_id w = (Returns (Some n), w') \<and>
            length (requests w') = length (requests w) + j + 1" by blast
next
  assume "\<forall>i<MAX_RETRIES. \<exists>resp. net w (length (requests w) + i) = Responds resp \<and>
                             no_strategy_matches resp"
  then have "\<forall>i<MAX_RETRIES. isl (attempt_result (net w (length (requests w) + i)))"
    using no_match_fails by fastforce
  then show "\<exists>w'. main w = (1, w') \<and> files w' = files w \<and>
            length (requests w') = length (requests w) + MAX_RETRIES"
    by (rule main_exits_when_fetch_exhausted)
qed

lemma hello_page: "no_strategy_matches (plain_page ''hello'')"
  by code_simp

theorem unparsable_page_is_retried_witness:
  "(\<exists>w'. get_citation_count_direct SCHOLAR_ID
      (quiet_world (\<lambda>k. if k < 2 then Responds (plain_page ''hello'')
                         else Responds (plain_page ''Citations 12'')) Map.empty)
       = (Returns (Some 12), w') \<and> length (requests w') = 3) \<and>
   (\<exists>w'. main (quiet_world (\<lambda>k. Responds (plain_page ''hello'')) Map.empty) = (1, w') \<and>
         files w' = Map.empty \<and> length (requests w') = 5)"
proof
  let ?w = "quiet_world (\<lambda>k. if k < 2 then Responds (plain_page ''hello'')
                         else Responds (plain_page ''Citations 12'')) Map.empty"
  have "(\<forall>i<2. \<exists>resp. net ?w (length (requests ?w) + i) = Responds resp \<and> no_strategy_matches resp) \<and>
    2 < MAX_RETRIES \<and> attempt_result (net ?w (length (requests ?w) + 2)) = Inr 12"
    by (simp add: quiet_world_def hello_page MAX_RETRIES_def attempt_result_def plain_page_count)
       (simp add: plain_page_def)
  with unparsable_page_is_retried [of 2 ?w 12 SCHOLAR_ID]
  obtain w' where "get_citation_count_direct SCHOLAR_ID ?w = (Returns (Some 12), w')"
    and "length (requests w') = length (requests ?w) + 2 + 1" by blast
  moreover have "length (requests ?w) = 0" by (simp add: quiet_world_def)
  ultimately have "get_citation_count_direct SCHOLAR_ID ?w = (Returns (Some 12), w') \<and>
             length (requests w') = 3" by simp
  then show "\<exists>w'. get_citation_count_direct SCHOLAR_ID ?w = (Returns (Some 12), w') \<and>
             length (requests w') = 3" ..
next
  let ?w = "quiet_world (\<lambda>k. Responds (plain_page ''hello'')) Map.empty"
  have "\<forall>i<MAX_RETRIES. \<exists>resp. net ?w (length (requests ?w) + i) = Responds resp \<and>
                             no_strategy_matches resp"
    by (simp add: quiet_world_def hello_page)
  with unparsable_page_is_retried [of _ ?w _ _]
  obtain w' where "main ?w = (1, w')" and "files w' = files ?w"
    and "length (requests w') = length (requests ?w) + MAX_RETRIES" by blast
  moreover have "length (requests ?w) = 0" "files ?w = Map.empty" by (simp_all add: quiet_world_def)
  ultimately have "main ?w = (1, w') \<and> files w' = Map.empty \<and> length (requests w') = 5"
    by (simp add: MAX_RETRIES_def)
  then show "\<exists>w'. main ?w = (1, w') \<and> files w' = Map.empty \<and> length (requests w') = 5" ..
qed

text \<open>
  C2 as stated fails: the first document below matches no strategy, and the script
  sends a second request and returns the count found in the second document.
\<close>

theorem unparsable_page_second_fetch:
  "no_strategy_matches (plain_page ''hello'') \<and>
   fst (get_citation_count_direct SCHOLAR_ID
      (quiet_world (\<lambda>k. if k = 0 then Responds (plain_page ''hello'')
                         else Responds (plain_page ''Citations 12'')) Map.empty))
     = Returns (Some 12) \<and>
   length (requests (snd (get_citation_count_direct SCHOLAR_ID
      (quiet_world (\<lambda>k. if k = 0 then Responds (plain_page ''hello'')
                         else Responds (plain_page ''Citations 12'')) Map.empty)))) = 2"
  by code_simp

section \<open>A missing structured-data file\<close>

lemma update_index_html_ok:
  assumes "files w p = Some f" "readable f"
    "writable f \<or> re_search flags_I html_pattern (universal_newlines (contents f)) = None"
    "fmt v = Some t"
  shows "\<exists>w'. update_index_html p v w = (Returns (), w') \<and>
     files w' = (files w)(p \<mapsto> f\<lparr>contents := html_stored (linesep w) (contents f) t\<rparr>) \<and>
     (\<exists>ls. console w' = console w @ ls)"
proof (cases "re_search flags_I html_pattern (universal_newlines (contents f))")
  case None
  with assms have "update_index_html p v w = (Returns (), say [HtmlNoEntry p] w)"
    by (simp add: update_index_html_def open_read_def)
  moreover from None assms
  have "(files w)(p \<mapsto> f\<lparr>contents := html_stored (linesep w) (contents f) t\<rparr>) = files w"
    by (auto simp: html_stored_def)
  ultimately show ?thesis by simp
next
  case (Some mt)
  with assms have wr: "writable f" by simp
  let ?new = "re_sub flags_I html_pattern (count_template t) (universal_newlines (contents f)) 0"
  let ?w' = "w\<lparr>files := (files w)(p \<mapsto> f\<lparr>contents := write_newlines (linesep w) ?new\<rparr>)\<rparr>"
  from Some assms wr have "update_index_html p v w =
     (Returns (), say [HtmlUpdated (shown (group mt 2)) t, SuccessLine p] ?w')"
    by (simp add: update_index_html_def open_read_def open_write_def Let_def)
  moreover from Some have "html_stored (linesep w) (contents f) t = write_newlines (linesep w) ?new"
    by (simp add: html_stored_def html_text_def)
  ultimately show ?thesis by simp
qed

text \<open>
  C8. When the structured-data file does not exist, \<open>update_yaml_file\<close> prints the
  skip line and returns, changing nothing else. If moreover the fetch succeeds and
  \<open>index.html\<close> can be read (and written, where its pattern matches), \<open>main\<close> goes on
  to patch \<open>index.html\<close> with the text of the count and ends with exit status 0; the
  skip line is on the console and the structured-data file still does not exist.
\<close>

theorem missing_yaml_is_skipped:
  assumes "files w CONTENT_FILE = None"
    and "files w INDEX_FILE = Some f" and "readable f"
    and "writable f \<or> re_search flags_I html_pattern (universal_newlines (contents f)) = None"
    and "j < MAX_RETRIES"
    and "\<forall>i<j. isl (attempt_result (net w (length (requests w) + i)))"
    and "attempt_result (net w (length (requests w) + j)) = Inr n"
  shows "update_yaml_file CONTENT_FILE v w = say [YamlMissing CONTENT_FILE] w \<and>
    (\<exists>w' t. fmt (Some n) = Some t \<and> main w = (0, w') \<and>
       YamlMissing CONTENT_FILE \<in> set (console w') \<and>
       files w' = (files w)(INDEX_FILE \<mapsto> f\<lparr>contents := html_stored (linesep w) (contents f) t\<rparr>))"
proof
  from assms(1) show "update_yaml_file CONTENT_FILE v w = say [YamlMissing CONTENT_FILE] w"
    by (simp add: update_yaml_file_def)
next
  let ?w2 = "say [if use_proxy (say [Banner, ScholarIdLine SCHOLAR_ID, ScholarUrlLine SCHOLAR_URL] w)
                  then KeyFound else NoKey]
               (say [Banner, ScholarIdLine SCHOLAR_ID, ScholarUrlLine SCHOLAR_URL] w)"
  from attempt_result_printable [OF assms(7)] obtain t where t: "fmt (Some n) = Some t" ..
  from assms(6,7) have "\<forall>i<j. isl (attempt_result (net ?w2 (length (requests ?w2) + i)))"
    "attempt_result (net ?w2 (length (requests ?w2) + j)) = Inr n" by simp_all
  from fetch_after_failures [OF assms(5) this, of SCHOLAR_ID]
  obtain w3 where 1: "get_citation_count_direct SCHOLAR_ID ?w2 = (Returns (Some n), w3)"
    and 2: "files w3 = files w" "linesep w3 = linesep w" by auto
  let ?w4 = "say [YamlMissing CONTENT_FILE] w3"
  from 2 assms(1) have 3: "update_yaml_file CONTENT_FILE (Some n) w3 = ?w4"
    by (simp add: update_yaml_file_def)
  from 2 assms(2) have "files ?w4 INDEX_FILE = Some f" by simp
  from update_index_html_ok [OF this assms(3,4) t]
  obtain w5 ls where 4: "update_index_html INDEX_FILE (Some n) ?w4 = (Returns (), w5)"
    and 5: "files w5 = (files ?w4)(INDEX_FILE \<mapsto>
              f\<lparr>contents := html_stored (linesep ?w4) (contents f) t\<rparr>)"
    and 6: "console w5 = console ?w4 @ ls" by blast
  from 1 3 4 have "main w = (0, say [Complete] w5)" by (simp add: main_def Let_def)
  moreover from 6 have "YamlMissing CONTENT_FILE \<in> set (console (say [Complete] w5))" by simp
  moreover from 5 2 have "files (say [Complete] w5) =
     (files w)(INDEX_FILE \<mapsto> f\<lparr>contents := html_stored (linesep w) (contents f) t\<rparr>)" by simp
  ultimately show "\<exists>w' t. fmt (Some n) = Some t \<and> main w = (0, w') \<and>
       YamlMissing CONTENT_FILE \<in> set (console w') \<and>
       files w' = (files w)(INDEX_FILE \<mapsto> f\<lparr>contents := html_stored (linesep w) (contents f) t\<rparr>)"
    using t by blast
qed

lemma index_sample_patched:
  "html_stored [newline] (index_sample ''41'') ''12'' = index_sample ''12''"
  "fmt (Some 12) = Some ''12''"
  by code_simp+

theorem missing_yaml_is_skipped_witness:
  "\<exists>w'. main (quiet_world (\<lambda>k. Responds (plain_page ''Citations 12''))
                [INDEX_FILE \<mapsto> \<lparr>contents = index_sample ''41'', readable = True, writable = True\<rparr>])
          = (0, w') \<and>
        YamlMissing CONTENT_FILE \<in> set (console w') \<and>
        files w' = [INDEX_FILE \<mapsto> \<lparr>contents = index_sample ''12'', readable = True, writable = True\<rparr>]"
proof -
  let ?f = "\<lparr>contents = index_sample ''41'', readable = True, writable = True\<rparr>"
  let ?w = "quiet_world (\<lambda>k. Responds (plain_page ''Citations 12'')) [INDEX_FILE \<mapsto> ?f]"
  have 1: "files ?w CONTENT_FILE = None"
    by (simp add: quiet_world_def CONTENT_FILE_def INDEX_FILE_def)
  have 2: "files ?w INDEX_FILE = Some ?f" by (simp add: quiet_world_def)
  have 3: "readable ?f" by simp
  have 4: "writable ?f \<or> re_search flags_I html_pattern (universal_newlines (contents ?f)) = None"
    by simp
  have 5: "0 < MAX_RETRIES" by (simp add: MAX_RETRIES_def)
  have 6: "\<forall>i<0. isl (attempt_result (net ?w (length (requests ?w) + i)))" by simp
  have 7: "attempt_result (net ?w (length (requests ?w) + 0)) = Inr 12"
    by (simp add: quiet_world_def attempt_result_def plain_page_count) (simp add: plain_page_def)
  from missing_yaml_is_skipped [OF 1 2 3 4 5 6 7]
  obtain w' t where t: "fmt (Some 12) = Some t" and "main ?w = (0, w')"
    and "YamlMissing CONTENT_FILE \<in> set (console w')"
    and "files w' = (files ?w)(INDEX_FILE \<mapsto> ?f\<lparr>contents := html_stored (linesep ?w) (contents ?f) t\<rparr>)"
    by blast
  moreover from t have "t = ''12''" by (simp add: index_sample_patched(2))
  moreover have "(files ?w)(INDEX_FILE \<mapsto>
        ?f\<lparr>contents := html_stored (linesep ?w) (contents ?f) ''12''\<rparr>)
      = [INDEX_FILE \<mapsto> \<lparr>contents = index_sample ''12'', readable = True, writable = True\<rparr>]"
    by (simp add: quiet_world_def index_sample_patched(1))
  ultimately show ?thesis by auto
qed


section \<open>What the matcher accepts\<close>

lemma lang_SeqI: "lang fl r1 u \<Longrightarrow> lang fl r2 v \<Longrightarrow> lang fl (Seq r1 r2) (u @ v)"
  by (auto intro!: exI [of _ "length u"])

declare lang.simps(3) [simp del]

lemma star_cut:
  "m fl (R (Star a) # k) s caps = Some res \<Longrightarrow>
   \<exists>u s'. s = u @ s' \<and> list_all (atom_ok fl a) u \<and> m fl k s' caps = Some res"
proof (induction s)
  case Nil
  then show ?case by simp
next
  case (Cons c cs)
  show ?case
  proof (cases "atom_ok fl a c \<and> m fl (R (Star a) # k) cs caps \<noteq> None")
    case True
    with Cons.prems have "m fl (R (Star a) # k) cs caps = Some res" by auto
    from Cons.IH [OF this] obtain u s' where "cs = u @ s'" "list_all (atom_ok fl a) u"
      "m fl k s' caps = Some res" by blast
    with True have "c # cs = (c # u) @ s' \<and> list_all (atom_ok fl a) (c # u) \<and> m fl k s' caps = Some res"
      by simp
    then show ?thesis by blast
  next
    case False
    with Cons.prems have "m fl k (c # cs) caps = Some res" by (auto split: if_splits option.splits)
    then have "c # cs = [] @ (c # cs) \<and> list_all (atom_ok fl a) [] \<and> m fl k (c # cs) caps = Some res"
      by simp
    then show ?thesis by blast
  qed
qed

lemma lazy_cut:
  "m fl (R (Lazy a) # k) s caps = Some res \<Longrightarrow>
   \<exists>u s'. s = u @ s' \<and> list_all (atom_ok fl a) u \<and> m fl k s' caps = Some res"
proof (induction s)
  case Nil
  then show ?case by simp
next
  case (Cons c cs)
  show ?case
  proof (cases "m fl k (c # cs) caps")
    case (Some r)
    with Cons.prems have "m fl k (c # cs) caps = Some res" by simp
    then have "c # cs = [] @ (c # cs) \<and> list_all (atom_ok fl a) [] \<and> m fl k (c # cs) caps = Some res"
      by simp
    then show ?thesis by blast
  next
    case None
    with Cons.prems have ok: "atom_ok fl a c" and r: "m fl (R (Lazy a) # k) cs caps = Some res"
      by (auto split: if_splits)
    from Cons.IH [OF r] obtain u s' where "cs = u @ s'" "list_all (atom_ok fl a) u"
      "m fl k s' caps = Some res" by blast
    with ok have "c # cs = (c # u) @ s' \<and> list_all (atom_ok fl a) (c # u) \<and> m fl k s' caps = Some res"
      by simp
    then show ?thesis by blast
  qed
qed

lemma cut:
  "nogroups r \<Longrightarrow> m fl (R r # k) s caps = Some res \<Longrightarrow>
   \<exists>u s'. s = u @ s' \<and> lang fl r u \<and> m fl k s' caps = Some res"
proof (induction r arbitrary: k s caps)
  case Eps
  then have "s = [] @ s \<and> lang fl Eps [] \<and> m fl k s caps = Some res" by simp
  then show ?case by blast
next
  case (A a)
  then obtain c cs where s: "s = c # cs" and ok: "atom_ok fl a c" and r: "m fl k cs caps = Some res"
    by (cases s) (auto split: if_splits)
  then have "s = [c] @ cs \<and> lang fl (A a) [c] \<and> m fl k cs caps = Some res" by simp
  then show ?case by blast
next
  case (Seq r1 r2)
  from Seq.prems have ng: "nogroups r1" "nogroups r2"
    and run: "m fl (R r1 # R r2 # k) s caps = Some res" by simp_all
  from Seq.IH(1) [OF ng(1) run] obtain u1 s1 where 1: "s = u1 @ s1" "lang fl r1 u1"
    and run1: "m fl (R r2 # k) s1 caps = Some res" by blast
  from Seq.IH(2) [OF ng(2) run1] obtain u2 s2 where 2: "s1 = u2 @ s2" "lang fl r2 u2"
    and run2: "m fl k s2 caps = Some res" by blast
  from 1 2 have "s = (u1 @ u2) @ s2" by simp
  moreover from 1(2) 2(2) have "lang fl (Seq r1 r2) (u1 @ u2)" by (rule lang_SeqI)
  ultimately show ?case using run2 by blast
next
  case (Star a)
  from star_cut [OF Star.prems(2)] show ?case by simp
next
  case (Lazy a)
  from lazy_cut [OF Lazy.prems(2)] show ?case by simp
next
  case (Plus a)
  from Plus.prems obtain c cs where s: "s = c # cs" and ok: "atom_ok fl a c"
    and r: "m fl (R (Star a) # k) cs caps = Some res"
    by (cases s) (auto split: if_splits)
  from star_cut [OF r] obtain u s' where "cs = u @ s'" "list_all (atom_ok fl a) u"
    "m fl k s' caps = Some res" by blast
  with s ok have "s = (c # u) @ s' \<and> lang fl (Plus a) (c # u) \<and> m fl k s' caps = Some res" by simp
  then show ?case by blast
next
  case (Opt r)
  show ?case
  proof (cases "m fl (R r # k) s caps")
    case None
    with Opt.prems have "s = [] @ s \<and> lang fl (Opt r) [] \<and> m fl k s caps = Some res" by simp
    then show ?thesis by blast
  next
    case (Some x)
    with Opt.prems have ng: "nogroups r" and run: "m fl (R r # k) s caps = Some res" by simp_all
    from Opt.IH [OF ng run] obtain u s' where "s = u @ s'" "lang fl r u" "m fl k s' caps = Some res"
      by blast
    then have "s = u @ s' \<and> lang fl (Opt r) u \<and> m fl k s' caps = Some res" by simp
    then show ?thesis by blast
  qed
next
  case (Group n r)
  then show ?case by simp
qed

lemma group_cut:
  assumes "nogroups r" and "m fl (R (Group n r) # k) s caps = Some res"
  shows "\<exists>u s'. s = u @ s' \<and> lang fl r u \<and> m fl k s' ((n, u) # caps) = Some res"
proof -
  from assms(2) have "m fl (R r # Close n s # k) s caps = Some res" by simp
  from cut [OF assms(1) this] obtain u s' where 1: "s = u @ s'" "lang fl r u"
    and 2: "m fl (Close n s # k) s' caps = Some res" by blast
  from 1 2 have "m fl k s' ((n, u) # caps) = Some res" by simp
  with 1 show ?thesis by blast
qed

lemma nogroups_seqs: "nogroups (seqs rs) = list_all nogroups rs"
  by (induction rs) simp_all

lemma nogroups_lits: "list_all nogroups (lits t)"
  by (induction t) (simp_all add: lits_def)

lemma fieldlike_yaml: "fieldlike yaml_pattern"
  unfolding fieldlike_def field_pattern_def yaml_pattern_def
  by (rule exI, rule exI, rule conjI, rule refl) (simp add: nogroups_seqs nogroups_lits)

lemma fieldlike_yaml2: "fieldlike yaml_pattern2"
  unfolding fieldlike_def field_pattern_def yaml_pattern2_def
  by (rule exI, rule exI, rule conjI, rule refl) (simp add: nogroups_seqs nogroups_lits)

lemma fieldlike_html: "fieldlike html_pattern"
  unfolding fieldlike_def field_pattern_def html_pattern_def
  by (rule exI, rule exI, rule conjI, rule refl) (simp add: nogroups_seqs nogroups_lits)

lemma field_match:
  assumes "nogroups a" "nogroups c"
    and "m fl (R (field_pattern a c) # k) s [] = Some (rest, caps)"
    and "k = [] \<or> k = [Advance s0]"
  shows "\<exists>g1 g2 g3. s = g1 @ g2 @ g3 @ rest \<and> caps = [(3, g3), (2, g2), (1, g1)] \<and>
           g2 \<noteq> [] \<and> list_all isdigit g2"
proof -
  from assms(3) have "m fl (R (Group 1 a) # R (Seq (Group 2 (Plus Dig)) (Group 3 c)) # k) s []
      = Some (rest, caps)" by (simp add: field_pattern_def)
  from group_cut [OF assms(1) this] obtain g1 s1 where 1: "s = g1 @ s1"
    and r1: "m fl (R (Seq (Group 2 (Plus Dig)) (Group 3 c)) # k) s1 [(1, g1)] = Some (rest, caps)"
    by blast
  from r1 have "m fl (R (Group 2 (Plus Dig)) # R (Group 3 c) # k) s1 [(1, g1)] = Some (rest, caps)"
    by simp
  from group_cut [OF _ this] obtain g2 s2 where 2: "s1 = g2 @ s2" "lang fl (Plus Dig) g2"
    and r2: "m fl (R (Group 3 c) # k) s2 [(2, g2), (1, g1)] = Some (rest, caps)"
    by auto
  from group_cut [OF assms(2) r2] obtain g3 s3 where 3: "s2 = g3 @ s3"
    and r3: "m fl k s3 [(3, g3), (2, g2), (1, g1)] = Some (rest, caps)"
    by blast
  from r3 assms(4) have "rest = s3 \<and> caps = [(3, g3), (2, g2), (1, g1)]"
    by (auto split: if_splits)
  moreover from 2 have "g2 \<noteq> []" "list_all isdigit g2" by (simp_all add: list_all_iff)
  ultimately show ?thesis using 1 2 3 by auto
qed

lemma re_search_at:
  "re_search fl r s = Some mt \<Longrightarrow>
   \<exists>t. s = pre mt @ t \<and> m fl [R r] t [] = Some (post mt, groups mt) \<and>
       whole mt = take (length t - length (post mt)) t"
proof (induction s arbitrary: mt)
  case Nil
  then show ?case
    by (auto simp: re_search.simps [of fl r "[]"] split: option.splits)
next
  case (Cons c cs)
  show ?case
  proof (cases "m fl [R r] (c # cs) []")
    case None
    with Cons.prems obtain mt' where 1: "re_search fl r cs = Some mt'" and 2: "mt = mt'\<lparr>pre := c # pre mt'\<rparr>"
      by (auto simp: re_search.simps [of fl r "c # cs"])
    from Cons.IH [OF 1] 2 show ?thesis by auto
  next
    case (Some res)
    obtain rest caps where res: "res = (rest, caps)" by (cases res)
    from Cons.prems Some res
    have "mt = \<lparr>pre = [], whole = take (length (c # cs) - length rest) (c # cs), post = rest, groups = caps\<rparr>"
      by (simp add: re_search.simps [of fl r "c # cs"])
    with Some res show ?thesis by auto
  qed
qed

lemma field_search:
  assumes "fieldlike r" and "re_search fl r s = Some mt"
  shows "whole mt = grp mt 1 @ field mt @ grp mt 3 \<and> field mt \<noteq> [] \<and> list_all isdigit (field mt)"
proof -
  from assms(1) obtain a c where r: "r = field_pattern a c" and ng: "nogroups a" "nogroups c"
    by (auto simp: fieldlike_def)
  from re_search_at [OF assms(2)] obtain t where t: "s = pre mt @ t"
    and run: "m fl [R r] t [] = Some (post mt, groups mt)"
    and w: "whole mt = take (length t - length (post mt)) t" by blast
  from field_match [OF ng, of fl "[]" t "post mt" "groups mt"] run r
  obtain g1 g2 g3 where g: "t = g1 @ g2 @ g3 @ post mt" "groups mt = [(3, g3), (2, g2), (1, g1)]"
    "g2 \<noteq> []" "list_all isdigit g2" by auto
  from g(2) have "grp mt 1 = g1" "field mt = g2" "grp mt 3 = g3"
    by (simp_all add: grp_def field_def group_def)
  moreover from w g(1) have "whole mt = g1 @ g2 @ g3" by simp
  ultimately show ?thesis using g by simp
qed

lemma field_text:
  assumes "fieldlike r" and "re_search fl r s = Some mt"
  shows "s = pre mt @ grp mt 1 @ field mt @ grp mt 3 @ post mt"
  using re_search_split [OF assms(2)] field_search [OF assms] by simp

lemma expand_count: "expand (count_template t) mt = grp mt 1 @ t @ grp mt 3"
  by (simp add: expand_def count_template_def grp_def)

lemma sub_loop_every:
  "fieldlike r \<Longrightarrow>
   sub_loop fl r (count_template t) 0 n False s = rewrite t (occurrences fl r s) s"
proof (induction fl r s arbitrary: n rule: occurrences.induct)
  case (1 fl r s)
  show ?case
  proof (cases "re_search fl r s")
    case None
    then show ?thesis
      by (simp add: sub_loop.simps [of fl r _ 0 n False s] search_from_def occurrences.simps [of fl r s])
  next
    case (Some mt)
    from field_search [OF "1.prems" Some] have ne: "whole mt \<noteq> []" by auto
    from "1.IH" [OF Some ne "1.prems"]
    have "sub_loop fl r (count_template t) 0 (Suc n) False (post mt)
          = rewrite t (occurrences fl r (post mt)) (post mt)" .
    with Some ne show ?thesis
      by (simp add: sub_loop.simps [of fl r _ 0 n False s] search_from_def
                    occurrences.simps [of fl r s] expand_count)
  qed
qed

lemma sub_loop_first:
  "fieldlike r \<Longrightarrow>
   sub_loop fl r (count_template t) (Suc 0) 0 False s =
     rewrite t (take (Suc 0) (occurrences fl r s)) s"
proof (cases "re_search fl r s")
  case None
  then show ?thesis
    by (subst sub_loop.simps) (simp add: search_from_def occurrences.simps [of fl r s])
next
  case (Some mt)
  assume "fieldlike r"
  from field_search [OF this Some] have ne: "whole mt \<noteq> []" by auto
  have "sub_loop fl r (count_template t) (Suc 0) (Suc 0) False (post mt) = post mt"
    by (subst sub_loop.simps) simp
  with Some ne show ?thesis
    by (subst sub_loop.simps) (simp add: search_from_def occurrences.simps [of fl r s] expand_count)
qed

lemma rewrite_same:
  "fieldlike r \<Longrightarrow> \<forall>mt\<in>set (occurrences fl r s). field mt = v \<Longrightarrow>
   rewrite v (occurrences fl r s) s = s"
proof (induction fl r s rule: occurrences.induct)
  case (1 fl r s)
  show ?case
  proof (cases "re_search fl r s")
    case None
    then show ?thesis by (simp add: occurrences.simps [of fl r s])
  next
    case (Some mt)
    from field_search [OF "1.prems"(1) Some] have ne: "whole mt \<noteq> []" by auto
    from Some ne have occ: "occurrences fl r s = mt # occurrences fl r (post mt)"
      by (simp add: occurrences.simps [of fl r s])
    with "1.prems"(2) have f: "field mt = v" and rest: "\<forall>mt\<in>set (occurrences fl r (post mt)). field mt = v"
      by simp_all
    from "1.IH" [OF Some ne "1.prems"(1) rest]
    have ih: "rewrite v (occurrences fl r (post mt)) (post mt) = post mt" .
    have "rewrite v (occurrences fl r s) s
          = pre mt @ grp mt 1 @ v @ grp mt 3 @ rewrite v (occurrences fl r (post mt)) (post mt)"
      by (simp only: occ rewrite.simps)
    also have "\<dots> = pre mt @ grp mt 1 @ field mt @ grp mt 3 @ post mt"
      by (simp only: ih f)
    also have "\<dots> = s" by (rule field_text [OF "1.prems"(1) Some, symmetric])
    finally show ?thesis .
  qed
qed

lemma rewrite_same_first:
  "fieldlike r \<Longrightarrow> \<forall>mt\<in>set (take 1 (occurrences fl r s)). field mt = v \<Longrightarrow>
   rewrite v (take 1 (occurrences fl r s)) s = s"
proof (cases "re_search fl r s")
  case None
  then show ?thesis by (simp add: occurrences.simps [of fl r s])
next
  case (Some mt)
  assume fl: "fieldlike r" and a: "\<forall>mt\<in>set (take 1 (occurrences fl r s)). field mt = v"
  from Some have occ: "take 1 (occurrences fl r s) = [mt]"
    by (simp add: occurrences.simps [of fl r s])
  with a have f: "field mt = v" by simp
  have "rewrite v (take 1 (occurrences fl r s)) s = pre mt @ grp mt 1 @ v @ grp mt 3 @ post mt"
    by (simp only: occ rewrite.simps)
  also have "\<dots> = pre mt @ grp mt 1 @ field mt @ grp mt 3 @ post mt"
    by (simp only: f)
  also have "\<dots> = s" by (rule field_text [OF fl Some, symmetric])
  finally show ?thesis .
qed

section \<open>The two patches\<close>

lemma universal_newlines_id: "carriage_return \<notin> set s \<Longrightarrow> universal_newlines s = s"
  by (induction s rule: universal_newlines.induct) auto

lemma write_newlines_id: "write_newlines [newline] t = t"
  by (induction t) (simp_all add: write_newlines_def)

lemma update_yaml_file_files:
  assumes "files w p = Some f" "readable f" "writable f" "fmt v = Some t"
  shows "files (update_yaml_file p v w) =
         (files w)(p \<mapsto> f\<lparr>contents := yaml_stored (linesep w) (contents f) t\<rparr>)"
proof -
  from assms(1) have same: "(files w)(p \<mapsto> f\<lparr>contents := contents f\<rparr>) = files w" by auto
  show ?thesis
  proof (cases "re_search flags_I yaml_pattern (universal_newlines (contents f))")
    case (Some mt)
    with assms show ?thesis
      by (simp add: update_yaml_file_def open_read_def open_write_def yaml_stored_def
                    yaml_text_def Let_def)
  next
    case None
    show ?thesis
    proof (cases "re_search flags_I yaml_pattern2 (universal_newlines (contents f))")
      case (Some mt)
      with None assms show ?thesis
        by (simp add: update_yaml_file_def open_read_def open_write_def yaml_stored_def
                      yaml_text_def Let_def)
    next
      case n2: None
      with None assms same show ?thesis
        by (simp add: update_yaml_file_def open_read_def open_write_def yaml_stored_def
                      yaml_text_def Let_def)
    qed
  qed
qed

lemma update_yaml_file_cases:
  assumes "files w p = Some f"
  shows "files (update_yaml_file p v w) = files w \<or>
         (\<exists>t. fmt v = Some t \<and>
              files (update_yaml_file p v w) =
                (files w)(p \<mapsto> f\<lparr>contents := yaml_stored (linesep w) (contents f) t\<rparr>))"
proof (cases "readable f \<and> writable f \<and> fmt v \<noteq> None")
  case True
  then obtain t where "fmt v = Some t" by auto
  with True update_yaml_file_files [OF assms, of v t] show ?thesis by simp
next
  case False
  with assms have "files (update_yaml_file p v w) = files w"
    by (auto simp: update_yaml_file_def open_read_def open_write_def Let_def
             split: option.splits)
  then show ?thesis ..
qed

lemma update_index_html_files:
  assumes "files w p = Some f" "readable f" "writable f" "fmt v = Some t"
  shows "files (snd (update_index_html p v w)) =
         (files w)(p \<mapsto> f\<lparr>contents := html_stored (linesep w) (contents f) t\<rparr>)"
proof -
  from assms(1) have same: "(files w)(p \<mapsto> f\<lparr>contents := contents f\<rparr>) = files w" by auto
  show ?thesis
  proof (cases "re_search flags_I html_pattern (universal_newlines (contents f))")
    case (Some mt)
    with assms show ?thesis
      by (simp add: update_index_html_def open_read_def open_write_def html_stored_def
                    html_text_def Let_def)
  next
    case None
    with assms same show ?thesis
      by (simp add: update_index_html_def open_read_def open_write_def html_stored_def
                    html_text_def Let_def)
  qed
qed

lemma update_index_html_cases:
  assumes "files w p = Some f"
  shows "files (snd (update_index_html p v w)) = files w \<or>
         (\<exists>t. fmt v = Some t \<and>
              files (snd (update_index_html p v w)) =
                (files w)(p \<mapsto> f\<lparr>contents := html_stored (linesep w) (contents f) t\<rparr>))"
proof (cases "readable f \<and> writable f \<and> fmt v \<noteq> None")
  case True
  then obtain t where "fmt v = Some t" by auto
  with True update_index_html_files [OF assms, of v t] show ?thesis by simp
next
  case False
  with assms have "files (snd (update_index_html p v w)) = files w"
    by (auto simp: update_index_html_def open_read_def open_write_def Let_def
             split: option.splits)
  then show ?thesis ..
qed

text \<open>
  A file without carriage returns, on a system whose line separator is the line feed,
  is read and written as it is stored.
\<close>

lemma yaml_stored_plain:
  "carriage_return \<notin> set c \<Longrightarrow> yaml_stored [newline] c t = yaml_text c t"
  by (simp add: yaml_stored_def universal_newlines_id write_newlines_id yaml_text_def)

lemma html_stored_plain:
  "carriage_return \<notin> set c \<Longrightarrow> html_stored [newline] c t = html_text c t"
  by (simp add: html_stored_def universal_newlines_id write_newlines_id html_text_def)

lemma re_sub_every:
  "fieldlike r \<Longrightarrow> re_sub fl r (count_template t) s 0 = rewrite t (occurrences fl r s) s"
  by (simp add: re_sub_def sub_loop_every)

lemma re_sub_first:
  "fieldlike r \<Longrightarrow>
   re_sub fl r (count_template t) s (Suc 0) = rewrite t (take (Suc 0) (occurrences fl r s)) s"
  by (simp add: re_sub_def sub_loop_first)

lemma occurrences_first:
  assumes "fieldlike r" and "take 1 (occurrences fl r s) = [mt]"
  shows "s = pre mt @ grp mt 1 @ field mt @ grp mt 3 @ post mt \<and> field mt \<noteq> [] \<and>
         list_all isdigit (field mt) \<and> re_search fl r s = Some mt"
proof (cases "re_search fl r s")
  case None
  with assms(2) show ?thesis by (simp add: occurrences.simps [of fl r s])
next
  case (Some mt')
  with assms(2) have "mt' = mt" by (simp add: occurrences.simps [of fl r s])
  with Some field_text [OF assms(1)] field_search [OF assms(1)] show ?thesis by blast
qed

lemma occurrences_single:
  assumes "fieldlike r" and "occurrences fl r s = [mt]"
  shows "s = pre mt @ grp mt 1 @ field mt @ grp mt 3 @ post mt \<and> field mt \<noteq> [] \<and>
         list_all isdigit (field mt) \<and> re_search fl r s = Some mt"
proof -
  from assms(2) have "take 1 (occurrences fl r s) = [mt]" by simp
  from occurrences_first [OF assms(1) this] show ?thesis .
qed

lemma yaml_text_single:
  assumes "occurrences flags_I yaml_pattern s = [mt]"
  shows "yaml_text s t = pre mt @ grp mt 1 @ t @ grp mt 3 @ post mt"
proof -
  from occurrences_single [OF fieldlike_yaml assms] have "re_search flags_I yaml_pattern s = Some mt"
    by blast
  then have "yaml_text s t = rewrite t (occurrences flags_I yaml_pattern s) s"
    by (simp add: yaml_text_def re_sub_every fieldlike_yaml)
  with assms show ?thesis by simp
qed

lemma yaml_text_loose:
  assumes "re_search flags_I yaml_pattern s = None"
    and "take 1 (occurrences flags_I yaml_pattern2 s) = [mt]"
  shows "yaml_text s t = pre mt @ grp mt 1 @ t @ grp mt 3 @ post mt"
proof -
  from occurrences_first [OF fieldlike_yaml2 assms(2)]
  have "re_search flags_I yaml_pattern2 s = Some mt" by blast
  with assms(1) have "yaml_text s t = rewrite t (take (Suc 0) (occurrences flags_I yaml_pattern2 s)) s"
    by (simp add: yaml_text_def re_sub_first fieldlike_yaml2)
  with assms(2) show ?thesis by simp
qed

lemma html_text_single:
  assumes "occurrences flags_I html_pattern s = [mt]"
  shows "html_text s t = pre mt @ grp mt 1 @ t @ grp mt 3 @ post mt"
proof -
  from occurrences_single [OF fieldlike_html assms] have "re_search flags_I html_pattern s = Some mt"
    by blast
  then have "html_text s t = rewrite t (occurrences flags_I html_pattern s) s"
    by (simp add: html_text_def re_sub_every fieldlike_html)
  with assms show ?thesis by simp
qed

text \<open>
  Where the patch is isolated. Take a file without carriage returns, on a system whose
  line separator is the line feed. When the file holds exactly one occurrence of the
  strict structured-data pattern, its text is the text before the occurrence, group 1,
  the old digits, group 3 and the text after it; the patch writes the same text with the
  new value in the place of the old digits and nothing else changed, and no other file
  is touched. When the strict pattern does not occur, the same holds of the first
  occurrence of the looser pattern; and for the HTML file the same holds of the one
  occurrence of the HTML pattern.
\<close>

theorem patch_changes_only_the_count:
  assumes "files w p = Some f" and "readable f" and "writable f" and "fmt v = Some t"
    and "linesep w = [newline]" and "carriage_return \<notin> set (contents f)"
  shows
    "(occurrences flags_I yaml_pattern (contents f) = [mt] \<longrightarrow>
        contents f = pre mt @ grp mt 1 @ field mt @ grp mt 3 @ post mt \<and>
        field mt \<noteq> [] \<and> list_all isdigit (field mt) \<and>
        files (update_yaml_file p v w) =
          (files w)(p \<mapsto> f\<lparr>contents := pre mt @ grp mt 1 @ t @ grp mt 3 @ post mt\<rparr>)) \<and>
     (re_search flags_I yaml_pattern (contents f) = None \<and>
      take 1 (occurrences flags_I yaml_pattern2 (contents f)) = [mt] \<longrightarrow>
        contents f = pre mt @ grp mt 1 @ field mt @ grp mt 3 @ post mt \<and>
        field mt \<noteq> [] \<and> list_all isdigit (field mt) \<and>
        files (update_yaml_file p v w) =
          (files w)(p \<mapsto> f\<lparr>contents := pre mt @ grp mt 1 @ t @ grp mt 3 @ post mt\<rparr>)) \<and>
     (occurrences flags_I html_pattern (contents f) = [mt] \<longrightarrow>
        contents f = pre mt @ grp mt 1 @ field mt @ grp mt 3 @ post mt \<and>
        field mt \<noteq> [] \<and> list_all isdigit (field mt) \<and>
        files (snd (update_index_html p v w)) =
          (files w)(p \<mapsto> f\<lparr>contents := pre mt @ grp mt 1 @ t @ grp mt 3 @ post mt\<rparr>))"
proof (intro conjI impI)
  from update_yaml_file_files [OF assms(1-4)] assms(5) yaml_stored_plain [OF assms(6)]
  have y: "files (update_yaml_file p v w) =
           (files w)(p \<mapsto> f\<lparr>contents := yaml_text (contents f) t\<rparr>)" by simp
  from update_index_html_files [OF assms(1-4)] assms(5) html_stored_plain [OF assms(6)]
  have h: "files (snd (update_index_html p v w)) =
           (files w)(p \<mapsto> f\<lparr>contents := html_text (contents f) t\<rparr>)" by simp
  {
    assume occ: "occurrences flags_I yaml_pattern (contents f) = [mt]"
    from occurrences_single [OF fieldlike_yaml occ]
    show "contents f = pre mt @ grp mt 1 @ field mt @ grp mt 3 @ post mt"
      "field mt \<noteq> []" "list_all isdigit (field mt)" by simp_all
    from y yaml_text_single [OF occ]
    show "files (update_yaml_file p v w) =
            (files w)(p \<mapsto> f\<lparr>contents := pre mt @ grp mt 1 @ t @ grp mt 3 @ post mt\<rparr>)"
      by simp
  }
  {
    assume a: "re_search flags_I yaml_pattern (contents f) = None \<and>
      take 1 (occurrences flags_I yaml_pattern2 (contents f)) = [mt]"
    then have none: "re_search flags_I yaml_pattern (contents f) = None"
      and occ: "take 1 (occurrences flags_I yaml_pattern2 (contents f)) = [mt]" by simp_all
    from occurrences_first [OF fieldlike_yaml2 occ]
    show "contents f = pre mt @ grp mt 1 @ field mt @ grp mt 3 @ post mt"
      "field mt \<noteq> []" "list_all isdigit (field mt)" by simp_all
    from y yaml_text_loose [OF none occ]
    show "files (update_yaml_file p v w) =
            (files w)(p \<mapsto> f\<lparr>contents := pre mt @ grp mt 1 @ t @ grp mt 3 @ post mt\<rparr>)"
      by simp
  }
  {
    assume occ: "occurrences flags_I html_pattern (contents f) = [mt]"
    from occurrences_single [OF fieldlike_html occ]
    show "contents f = pre mt @ grp mt 1 @ field mt @ grp mt 3 @ post mt"
      "field mt \<noteq> []" "list_all isdigit (field mt)" by simp_all
    from h html_text_single [OF occ]
    show "files (snd (update_index_html p v w)) =
            (files w)(p \<mapsto> f\<lparr>contents := pre mt @ grp mt 1 @ t @ grp mt 3 @ post mt\<rparr>)"
      by simp
  }
qed

lemma sample_facts:
  "fmt (Some 57) = Some ''57''"
  "carriage_return \<notin> set (yaml_sample ''41'')" "carriage_return \<notin> set (index_sample ''41'')"
  "carriage_return \<notin> set (yaml_loose ''41'' ''7'')"
  "carriage_return \<notin> set (yaml_sample ''57'')" "carriage_return \<notin> set (index_sample ''57'')"
  by code_simp+

lemma yaml_sample_occurrence:
  "occurrences flags_I yaml_pattern (yaml_sample ''41'') =
     [hd (occurrences flags_I yaml_pattern (yaml_sample ''41''))]"
  "(let mt = hd (occurrences flags_I yaml_pattern (yaml_sample ''41''))
    in pre mt @ grp mt 1 @ ''57'' @ grp mt 3 @ post mt) = yaml_sample ''57''"
  by code_simp+

lemma yaml_loose_occurrence:
  "re_search flags_I yaml_pattern (yaml_loose ''41'' ''7'') = None \<and>
   take 1 (occurrences flags_I yaml_pattern2 (yaml_loose ''41'' ''7'')) =
     [hd (occurrences flags_I yaml_pattern2 (yaml_loose ''41'' ''7''))]"
  "(let mt = hd (occurrences flags_I yaml_pattern2 (yaml_loose ''41'' ''7''))
    in pre mt @ grp mt 1 @ ''57'' @ grp mt 3 @ post mt) = yaml_loose ''57'' ''7''"
  by code_simp+

lemma index_sample_occurrence:
  "occurrences flags_I html_pattern (index_sample ''41'') =
     [hd (occurrences flags_I html_pattern (index_sample ''41''))]"
  "(let mt = hd (occurrences flags_I html_pattern (index_sample ''41''))
    in pre mt @ grp mt 1 @ ''57'' @ grp mt 3 @ post mt) = index_sample ''57''"
  by code_simp+

theorem patch_changes_only_the_count_witness:
  "files (update_yaml_file CONTENT_FILE (Some 57)
            (quiet_world (\<lambda>k. Fails) [CONTENT_FILE \<mapsto> rw_file (yaml_sample ''41'')]))
     = [CONTENT_FILE \<mapsto> rw_file (yaml_sample ''57'')] \<and>
   files (update_yaml_file CONTENT_FILE (Some 57)
            (quiet_world (\<lambda>k. Fails) [CONTENT_FILE \<mapsto> rw_file (yaml_loose ''41'' ''7'')]))
     = [CONTENT_FILE \<mapsto> rw_file (yaml_loose ''57'' ''7'')] \<and>
   files (snd (update_index_html INDEX_FILE (Some 57)
            (quiet_world (\<lambda>k. Fails) [INDEX_FILE \<mapsto> rw_file (index_sample ''41'')])))
     = [INDEX_FILE \<mapsto> rw_file (index_sample ''57'')]"
proof -
  have first: "files (update_yaml_file CONTENT_FILE (Some 57)
            (quiet_world (\<lambda>k. Fails) [CONTENT_FILE \<mapsto> rw_file (yaml_sample ''41'')]))
     = [CONTENT_FILE \<mapsto> rw_file (yaml_sample ''57'')]"
  proof -
    let ?f = "rw_file (yaml_sample ''41'')"
    let ?w = "quiet_world (\<lambda>k. Fails) [CONTENT_FILE \<mapsto> ?f]"
    let ?mt = "hd (occurrences flags_I yaml_pattern (yaml_sample ''41''))"
    have 1: "files ?w CONTENT_FILE = Some ?f" by (simp add: quiet_world_def)
    have 2: "readable ?f" "writable ?f" by (simp_all add: rw_file_def)
    have 3: "linesep ?w = [newline]" by (simp add: quiet_world_def)
    have 4: "carriage_return \<notin> set (contents ?f)" using sample_facts(2) by (simp add: rw_file_def)
    have 5: "occurrences flags_I yaml_pattern (contents ?f) = [?mt]"
      using yaml_sample_occurrence(1) by (simp add: rw_file_def)
    from patch_changes_only_the_count [OF 1 2 sample_facts(1) 3 4, of ?mt] 5
    have "files (update_yaml_file CONTENT_FILE (Some 57) ?w) =
            (files ?w)(CONTENT_FILE \<mapsto> ?f\<lparr>contents := pre ?mt @ grp ?mt 1 @ ''57'' @ grp ?mt 3 @ post ?mt\<rparr>)"
      by blast
    also have "\<dots> = [CONTENT_FILE \<mapsto> rw_file (yaml_sample ''57'')]"
      using yaml_sample_occurrence(2) by (simp add: quiet_world_def rw_file_def Let_def)
    finally show ?thesis .
  qed
  have second: "files (update_yaml_file CONTENT_FILE (Some 57)
            (quiet_world (\<lambda>k. Fails) [CONTENT_FILE \<mapsto> rw_file (yaml_loose ''41'' ''7'')]))
     = [CONTENT_FILE \<mapsto> rw_file (yaml_loose ''57'' ''7'')]"
  proof -
    let ?f = "rw_file (yaml_loose ''41'' ''7'')"
    let ?w = "quiet_world (\<lambda>k. Fails) [CONTENT_FILE \<mapsto> ?f]"
    let ?mt = "hd (occurrences flags_I yaml_pattern2 (yaml_loose ''41'' ''7''))"
    have 1: "files ?w CONTENT_FILE = Some ?f" by (simp add: quiet_world_def)
    have 2: "readable ?f" "writable ?f" by (simp_all add: rw_file_def)
    have 3: "linesep ?w = [newline]" by (simp add: quiet_world_def)
    have 4: "carriage_return \<notin> set (contents ?f)" using sample_facts(4) by (simp add: rw_file_def)
    have 5: "re_search flags_I yaml_pattern (contents ?f) = None \<and>
             take 1 (occurrences flags_I yaml_pattern2 (contents ?f)) = [?mt]"
      using yaml_loose_occurrence(1) by (simp add: rw_file_def)
    from patch_changes_only_the_count [OF 1 2 sample_facts(1) 3 4, of ?mt] 5
    have "files (update_yaml_file CONTENT_FILE (Some 57) ?w) =
            (files ?w)(CONTENT_FILE \<mapsto> ?f\<lparr>contents := pre ?mt @ grp ?mt 1 @ ''57'' @ grp ?mt 3 @ post ?mt\<rparr>)"
      by blast
    also have "\<dots> = [CONTENT_FILE \<mapsto> rw_file (yaml_loose ''57'' ''7'')]"
      using yaml_loose_occurrence(2) by (simp add: quiet_world_def rw_file_def Let_def)
    finally show ?thesis .
  qed
  have third: "files (snd (update_index_html INDEX_FILE (Some 57)
            (quiet_world (\<lambda>k. Fails) [INDEX_FILE \<mapsto> rw_file (index_sample ''41'')])))
     = [INDEX_FILE \<mapsto> rw_file (index_sample ''57'')]"
  proof -
    let ?f = "rw_file (index_sample ''41'')"
    let ?w = "quiet_world (\<lambda>k. Fails) [INDEX_FILE \<mapsto> ?f]"
    let ?mt = "hd (occurrences flags_I html_pattern (index_sample ''41''))"
    have 1: "files ?w INDEX_FILE = Some ?f" by (simp add: quiet_world_def)
    have 2: "readable ?f" "writable ?f" by (simp_all add: rw_file_def)
    have 3: "linesep ?w = [newline]" by (simp add: quiet_world_def)
    have 4: "carriage_return \<notin> set (contents ?f)" using sample_facts(3) by (simp add: rw_file_def)
    have 5: "occurrences flags_I html_pattern (contents ?f) = [?mt]"
      using index_sample_occurrence(1) by (simp add: rw_file_def)
    from patch_changes_only_the_count [OF 1 2 sample_facts(1) 3 4, of ?mt] 5
    have "files (snd (update_index_html INDEX_FILE (Some 57) ?w)) =
            (files ?w)(INDEX_FILE \<mapsto> ?f\<lparr>contents := pre ?mt @ grp ?mt 1 @ ''57'' @ grp ?mt 3 @ post ?mt\<rparr>)"
      by blast
    also have "\<dots> = [INDEX_FILE \<mapsto> rw_file (index_sample ''57'')]"
      using index_sample_occurrence(2) by (simp add: quiet_world_def rw_file_def Let_def)
    finally show ?thesis .
  qed
  from first second third show ?thesis by (intro conjI)
qed

text \<open>
  C5. Patch isolation: in a file that holds unrelated entries and exactly one
  \<open>GOOGLE SCHOLAR CITATIONS\<close> entry, patching is to change the digits of that
  entry's count and nothing else. The docstring of \<open>update_yaml_file\<close> says as much
  (``This preserves the original file formatting, comments, and quote styles''), and so
  do its comments (``Read the file as plain text to preserve formatting'', ``Try
  alternative pattern (different field order)''). The code does not keep to it, in two
  ways. The first file below holds two other entries and the one entry, its lines ended
  by CR LF: the file is opened in text mode, and the patch (on a POSIX system) writes it
  back with every line ended by a line feed, so the carriage returns, which stand
  outside the count, are gone. The second file holds the one entry with its count
  before its name, and an unrelated entry: only the looser pattern occurs, and the patch
  leaves the count of the entry at 41 and overwrites the count of the unrelated entry.
\<close>

theorem patch_changes_other_characters:
  "map_option contents
     (files (update_yaml_file CONTENT_FILE (Some 57)
               (quiet_world (\<lambda>k. Fails) [CONTENT_FILE \<mapsto> rw_file (crlf (yaml_sample ''41''))]))
        CONTENT_FILE) = Some (yaml_sample ''57'') \<and>
   yaml_sample ''57'' \<noteq> crlf (yaml_sample ''57'') \<and>
   map_option contents
     (files (update_yaml_file CONTENT_FILE (Some 57)
               (quiet_world (\<lambda>k. Fails) [CONTENT_FILE \<mapsto> rw_file (yaml_reordered ''41'' ''3'')]))
        CONTENT_FILE) = Some (yaml_reordered ''41'' ''57'')"
  by code_simp

lemma yaml_text_same:
  assumes "\<forall>x\<in>set (yaml_fields c). x = t"
  shows "yaml_text c t = c"
proof (cases "re_search flags_I yaml_pattern c")
  case (Some mt)
  with assms have "\<forall>mt\<in>set (occurrences flags_I yaml_pattern c). field mt = t"
    by (simp add: yaml_fields_def)
  from rewrite_same [OF fieldlike_yaml this] Some show ?thesis
    by (simp add: yaml_text_def re_sub_every fieldlike_yaml)
next
  case None
  show ?thesis
  proof (cases "re_search flags_I yaml_pattern2 c")
    case n2: None
    with None show ?thesis by (simp add: yaml_text_def)
  next
    case (Some mt)
    from assms None have "\<forall>mt\<in>set (take 1 (occurrences flags_I yaml_pattern2 c)). field mt = t"
      by (simp add: yaml_fields_def)
    from rewrite_same_first [OF fieldlike_yaml2 this] None Some show ?thesis
      by (simp add: yaml_text_def re_sub_first fieldlike_yaml2)
  qed
qed

lemma html_text_same:
  assumes "\<forall>x\<in>set (html_fields c). x = t"
  shows "html_text c t = c"
proof (cases "re_search flags_I html_pattern c")
  case (Some mt)
  from assms have "\<forall>mt\<in>set (occurrences flags_I html_pattern c). field mt = t"
    by (simp add: html_fields_def)
  from rewrite_same [OF fieldlike_html this] Some show ?thesis
    by (simp add: html_text_def re_sub_every fieldlike_html)
next
  case None
  then show ?thesis by (simp add: html_text_def)
qed

text \<open>
  Where the patch is idempotent. Take a file without carriage returns, on a system whose
  line separator is the line feed: when every field a patch operation rewrites already
  holds the text of the new value, the operation leaves every file as it was, byte for
  byte. This holds for the structured-data file and for the HTML file.
\<close>

theorem patch_is_idempotent:
  assumes "files w p = Some f"
    and "linesep w = [newline]" and "carriage_return \<notin> set (contents f)"
  shows "((\<forall>x\<in>set (yaml_fields (contents f)). fmt v = Some x) \<longrightarrow>
            files (update_yaml_file p v w) = files w) \<and>
         ((\<forall>x\<in>set (html_fields (contents f)). fmt v = Some x) \<longrightarrow>
            files (snd (update_index_html p v w)) = files w)"
proof (intro conjI impI)
  from assms(1) have same: "(files w)(p \<mapsto> f\<lparr>contents := contents f\<rparr>) = files w" by auto
  {
    assume a: "\<forall>x\<in>set (yaml_fields (contents f)). fmt v = Some x"
    from update_yaml_file_cases [OF assms(1), of v]
    show "files (update_yaml_file p v w) = files w"
    proof
      assume "\<exists>t. fmt v = Some t \<and> files (update_yaml_file p v w) =
                (files w)(p \<mapsto> f\<lparr>contents := yaml_stored (linesep w) (contents f) t\<rparr>)"
      then obtain t where t: "fmt v = Some t"
        and fs: "files (update_yaml_file p v w) =
                (files w)(p \<mapsto> f\<lparr>contents := yaml_stored (linesep w) (contents f) t\<rparr>)" by blast
      from a t have "\<forall>x\<in>set (yaml_fields (contents f)). x = t" by simp
      then have "yaml_text (contents f) t = contents f" by (rule yaml_text_same)
      with fs assms(2) yaml_stored_plain [OF assms(3)] same show ?thesis by simp
    qed
  }
  {
    assume a: "\<forall>x\<in>set (html_fields (contents f)). fmt v = Some x"
    from update_index_html_cases [OF assms(1), of v]
    show "files (snd (update_index_html p v w)) = files w"
    proof
      assume "\<exists>t. fmt v = Some t \<and> files (snd (update_index_html p v w)) =
                (files w)(p \<mapsto> f\<lparr>contents := html_stored (linesep w) (contents f) t\<rparr>)"
      then obtain t where t: "fmt v = Some t"
        and fs: "files (snd (update_index_html p v w)) =
                (files w)(p \<mapsto> f\<lparr>contents := html_stored (linesep w) (contents f) t\<rparr>)" by blast
      from a t have "\<forall>x\<in>set (html_fields (contents f)). x = t" by simp
      then have "html_text (contents f) t = contents f" by (rule html_text_same)
      with fs assms(2) html_stored_plain [OF assms(3)] same show ?thesis by simp
    qed
  }
qed

lemma samples_hold_57:
  "\<forall>x\<in>set (yaml_fields (yaml_sample ''57'')). fmt (Some 57) = Some x"
  "\<forall>x\<in>set (html_fields (index_sample ''57'')). fmt (Some 57) = Some x"
  "yaml_fields (yaml_sample ''57'') \<noteq> []" "html_fields (index_sample ''57'') \<noteq> []"
  by code_simp+

theorem patch_is_idempotent_witness:
  "files (update_yaml_file CONTENT_FILE (Some 57)
            (quiet_world (\<lambda>k. Fails) [CONTENT_FILE \<mapsto> rw_file (yaml_sample ''57'')]))
     = [CONTENT_FILE \<mapsto> rw_file (yaml_sample ''57'')] \<and>
   files (snd (update_index_html INDEX_FILE (Some 57)
            (quiet_world (\<lambda>k. Fails) [INDEX_FILE \<mapsto> rw_file (index_sample ''57'')])))
     = [INDEX_FILE \<mapsto> rw_file (index_sample ''57'')]"
proof
  let ?f = "rw_file (yaml_sample ''57'')"
  let ?w = "quiet_world (\<lambda>k. Fails) [CONTENT_FILE \<mapsto> ?f]"
  have 1: "files ?w CONTENT_FILE = Some ?f" by (simp add: quiet_world_def)
  have 2: "linesep ?w = [newline]" by (simp add: quiet_world_def)
  have 3: "carriage_return \<notin> set (contents ?f)" using sample_facts(5) by (simp add: rw_file_def)
  have 4: "\<forall>x\<in>set (yaml_fields (contents ?f)). fmt (Some 57) = Some x"
    using samples_hold_57(1) by (simp add: rw_file_def)
  from patch_is_idempotent [OF 1 2 3, of "Some 57"] 4
  have "files (update_yaml_file CONTENT_FILE (Some 57) ?w) = files ?w" by blast
  then show "files (update_yaml_file CONTENT_FILE (Some 57) ?w) = [CONTENT_FILE \<mapsto> ?f]"
    by (simp add: quiet_world_def)
next
  let ?f = "rw_file (index_sample ''57'')"
  let ?w = "quiet_world (\<lambda>k. Fails) [INDEX_FILE \<mapsto> ?f]"
  have 1: "files ?w INDEX_FILE = Some ?f" by (simp add: quiet_world_def)
  have 2: "linesep ?w = [newline]" by (simp add: quiet_world_def)
  have 3: "carriage_return \<notin> set (contents ?f)" using sample_facts(6) by (simp add: rw_file_def)
  have 4: "\<forall>x\<in>set (html_fields (contents ?f)). fmt (Some 57) = Some x"
    using samples_hold_57(2) by (simp add: rw_file_def)
  from patch_is_idempotent [OF 1 2 3, of "Some 57"] 4
  have "files (snd (update_index_html INDEX_FILE (Some 57) ?w)) = files ?w" by blast
  then show "files (snd (update_index_html INDEX_FILE (Some 57) ?w)) = [INDEX_FILE \<mapsto> ?f]"
    by (simp add: quiet_world_def)
qed

text \<open>
  C6. Patch idempotence: patching a file whose field already holds the new value is to
  give byte-identical output, as the docstring of \<open>update_yaml_file\<close> has it (``This
  preserves the original file formatting''). The code does not keep to it. In each of
  the two files below the field already holds the new value 57 and the lines are ended
  by CR LF: the files are opened in text mode, and the patch (on a POSIX system) writes
  the file back with every line ended by a line feed, so the output is not the input.
\<close>

theorem patch_rewrites_line_ends:
  "yaml_fields (universal_newlines (crlf (yaml_sample ''57''))) = [''57''] \<and>
   fmt (Some 57) = Some ''57'' \<and>
   map_option contents
     (files (update_yaml_file CONTENT_FILE (Some 57)
               (quiet_world (\<lambda>k. Fails) [CONTENT_FILE \<mapsto> rw_file (crlf (yaml_sample ''57''))]))
        CONTENT_FILE) = Some (yaml_sample ''57'') \<and>
   yaml_sample ''57'' \<noteq> crlf (yaml_sample ''57'') \<and>
   html_fields (universal_newlines (crlf (unlines [index_sample ''57'']))) = [''57''] \<and>
   map_option contents
     (files (snd (update_index_html INDEX_FILE (Some 57)
               (quiet_world (\<lambda>k. Fails) [INDEX_FILE \<mapsto> rw_file (crlf (unlines [index_sample ''57'']))])))
        INDEX_FILE) = Some (unlines [index_sample ''57'']) \<and>
   unlines [index_sample ''57''] \<noteq> crlf (unlines [index_sample ''57''])"
  by code_simp

text \<open>
  C10. Let \<open>content\<close> be the text read from the file and \<open>t\<close> what \<open>str\<close> writes for
  the new count. When the strict structured-data pattern matches, the text written is
  \<open>content\<close> with \<open>t\<close> in the place of the digits in every occurrence of that pattern;
  when only the looser pattern matches, \<open>t\<close> goes into its first occurrence alone.
\<close>

theorem strict_pattern_replaces_every_occurrence:
  assumes "files w p = Some f" and "readable f" and "writable f" and "fmt v = Some t"
    and "content = universal_newlines (contents f)"
  shows
    "(re_search flags_I yaml_pattern content \<noteq> None \<longrightarrow>
        files (update_yaml_file p v w) =
          (files w)(p \<mapsto> f\<lparr>contents := write_newlines (linesep w)
             (rewrite t (occurrences flags_I yaml_pattern content) content)\<rparr>)) \<and>
     (re_search flags_I yaml_pattern content = None \<and>
      re_search flags_I yaml_pattern2 content \<noteq> None \<longrightarrow>
        files (update_yaml_file p v w) =
          (files w)(p \<mapsto> f\<lparr>contents := write_newlines (linesep w)
             (rewrite t (take 1 (occurrences flags_I yaml_pattern2 content)) content)\<rparr>))"
proof (intro conjI impI)
  assume a: "re_search flags_I yaml_pattern content \<noteq> None"
  then have "yaml_text content t = rewrite t (occurrences flags_I yaml_pattern content) content"
    by (auto simp: yaml_text_def re_sub_every fieldlike_yaml)
  with a assms(5) have "yaml_stored (linesep w) (contents f) t =
      write_newlines (linesep w) (rewrite t (occurrences flags_I yaml_pattern content) content)"
    by (auto simp: yaml_stored_def)
  with update_yaml_file_files [OF assms(1-4)]
  show "files (update_yaml_file p v w) =
          (files w)(p \<mapsto> f\<lparr>contents := write_newlines (linesep w)
             (rewrite t (occurrences flags_I yaml_pattern content) content)\<rparr>)"
    by simp
next
  assume a: "re_search flags_I yaml_pattern content = None \<and>
      re_search flags_I yaml_pattern2 content \<noteq> None"
  then have "yaml_text content t = rewrite t (take 1 (occurrences flags_I yaml_pattern2 content)) content"
    by (auto simp: yaml_text_def re_sub_first fieldlike_yaml2)
  with a assms(5) have "yaml_stored (linesep w) (contents f) t =
      write_newlines (linesep w) (rewrite t (take 1 (occurrences flags_I yaml_pattern2 content)) content)"
    by (auto simp: yaml_stored_def)
  with update_yaml_file_files [OF assms(1-4)]
  show "files (update_yaml_file p v w) =
          (files w)(p \<mapsto> f\<lparr>contents := write_newlines (linesep w)
             (rewrite t (take 1 (occurrences flags_I yaml_pattern2 content)) content)\<rparr>)"
    by simp
qed

lemma yaml_twice_facts:
  "re_search flags_I yaml_pattern (yaml_twice ''41'' ''7'') \<noteq> None"
  "write_newlines [newline]
     (rewrite ''57'' (occurrences flags_I yaml_pattern (yaml_twice ''41'' ''7''))
        (yaml_twice ''41'' ''7'')) = yaml_twice ''57'' ''57''"
  "universal_newlines (yaml_twice ''41'' ''7'') = yaml_twice ''41'' ''7''"
  by code_simp+

lemma yaml_loose_facts:
  "re_search flags_I yaml_pattern (yaml_loose ''41'' ''7'') = None \<and>
   re_search flags_I yaml_pattern2 (yaml_loose ''41'' ''7'') \<noteq> None"
  "write_newlines [newline]
     (rewrite ''57'' (take 1 (occurrences flags_I yaml_pattern2 (yaml_loose ''41'' ''7'')))
        (yaml_loose ''41'' ''7'')) = yaml_loose ''57'' ''7''"
  "length (occurrences flags_I yaml_pattern2 (yaml_loose ''41'' ''7'')) = 2"
  "universal_newlines (yaml_loose ''41'' ''7'') = yaml_loose ''41'' ''7''"
  by code_simp+

theorem strict_pattern_replaces_every_occurrence_witness:
  "files (update_yaml_file CONTENT_FILE (Some 57)
            (quiet_world (\<lambda>k. Fails) [CONTENT_FILE \<mapsto> rw_file (yaml_twice ''41'' ''7'')]))
     = [CONTENT_FILE \<mapsto> rw_file (yaml_twice ''57'' ''57'')] \<and>
   files (update_yaml_file CONTENT_FILE (Some 57)
            (quiet_world (\<lambda>k. Fails) [CONTENT_FILE \<mapsto> rw_file (yaml_loose ''41'' ''7'')]))
     = [CONTENT_FILE \<mapsto> rw_file (yaml_loose ''57'' ''7'')]"
proof
  let ?f = "rw_file (yaml_twice ''41'' ''7'')"
  let ?w = "quiet_world (\<lambda>k. Fails) [CONTENT_FILE \<mapsto> ?f]"
  let ?c = "yaml_twice ''41'' ''7''"
  have 1: "files ?w CONTENT_FILE = Some ?f" by (simp add: quiet_world_def)
  have 2: "readable ?f" "writable ?f" by (simp_all add: rw_file_def)
  have 3: "?c = universal_newlines (contents ?f)"
    using yaml_twice_facts(3) by (simp add: rw_file_def)
  from strict_pattern_replaces_every_occurrence [OF 1 2 sample_facts(1) 3] yaml_twice_facts(1)
  have "files (update_yaml_file CONTENT_FILE (Some 57) ?w) =
          (files ?w)(CONTENT_FILE \<mapsto> ?f\<lparr>contents := write_newlines (linesep ?w)
             (rewrite ''57'' (occurrences flags_I yaml_pattern ?c) ?c)\<rparr>)"
    by blast
  also have "\<dots> = [CONTENT_FILE \<mapsto> rw_file (yaml_twice ''57'' ''57'')]"
    using yaml_twice_facts(2) by (simp add: quiet_world_def rw_file_def)
  finally show "files (update_yaml_file CONTENT_FILE (Some 57) ?w)
     = [CONTENT_FILE \<mapsto> rw_file (yaml_twice ''57'' ''57'')]" .
next
  let ?f = "rw_file (yaml_loose ''41'' ''7'')"
  let ?w = "quiet_world (\<lambda>k. Fails) [CONTENT_FILE \<mapsto> ?f]"
  let ?c = "yaml_loose ''41'' ''7''"
  have 1: "files ?w CONTENT_FILE = Some ?f" by (simp add: quiet_world_def)
  have 2: "readable ?f" "writable ?f" by (simp_all add: rw_file_def)
  have 3: "?c = universal_newlines (contents ?f)"
    using yaml_loose_facts(4) by (simp add: rw_file_def)
  from strict_pattern_replaces_every_occurrence [OF 1 2 sample_facts(1) 3] yaml_loose_facts(1)
  have "files (update_yaml_file CONTENT_FILE (Some 57) ?w) =
          (files ?w)(CONTENT_FILE \<mapsto> ?f\<lparr>contents := write_newlines (linesep ?w)
             (rewrite ''57'' (take 1 (occurrences flags_I yaml_pattern2 ?c)) ?c)\<rparr>)"
    by blast
  also have "\<dots> = [CONTENT_FILE \<mapsto> rw_file (yaml_loose ''57'' ''7'')]"
    using yaml_loose_facts(2) by (simp add: quiet_world_def rw_file_def)
  finally show "files (update_yaml_file CONTENT_FILE (Some 57) ?w)
     = [CONTENT_FILE \<mapsto> rw_file (yaml_loose ''57'' ''7'')]" .
qed


section \<open>The strategies of the extraction\<close>

lemma scan_rows_skip:
  "\<forall>r\<in>set before. \<not> citations_row r \<Longrightarrow> scan_rows (before @ rows) = scan_rows rows"
  by (induction before) (auto simp: citations_row_def Let_def)

text \<open>
  C4. The structured-table strategy. Let the document hold the statistics table, let
  \<open>row\<close> be the first of its rows with at least two cells whose first cell's text,
  stripped and in lower case, contains \<open>citations\<close>, and let the second cell hold a
  numeric value, written with or without thousands separators, of no more digits than
  \<open>int\<close> accepts. Then the strategy, and with it the extraction, returns exactly the
  integer the second cell denotes, the separators stripped.
\<close>

theorem structured_table_strategy:
  assumes "soup_find (\<lambda>n. is_tag ''table'' n \<and> has_id ''gsc_rsb_st'' n) (soup resp) = Some stats_table"
    and "find_all (is_tag ''tr'') stats_table = before @ row # after"
    and "\<forall>r\<in>set before. \<not> citations_row r"
    and "find_all (is_tag ''td'') row = label_cell # count_cell # others"
    and "contains ''citations'' (map lower (get_text_strip label_cell))"
    and "numeric (get_text_strip count_cell)"
    and "length (filter isdigit (get_text_strip count_cell)) \<le> int_max_str_digits"
  shows "method1 (soup resp) = Some (Inr (int (decimal (remove_commas (get_text_strip count_cell))))) \<and>
         extract_count resp = Inr (int (decimal (remove_commas (get_text_strip count_cell))))"
proof -
  from assms(4,5) have "scan_rows (row # after) = Some (to_count (get_text_strip count_cell))"
    by (simp add: Let_def)
  with scan_rows_skip [OF assms(3)] assms(2)
  have "scan_rows (find_all (is_tag ''tr'') stats_table) = Some (to_count (get_text_strip count_cell))"
    by simp
  with assms(1) to_count_numeric [OF assms(6,7)]
  have "method1 (soup resp) = Some (Inr (int (decimal (remove_commas (get_text_strip count_cell)))))"
    by (simp add: method1_def)
  then show ?thesis by (simp add: extract_count_def)
qed

lemma table_page_facts:
  "soup_find (\<lambda>n. is_tag ''table'' n \<and> has_id ''gsc_rsb_st'' n) (soup table_page) = Some (hd (soup table_page))"
  "find_all (is_tag ''tr'') (hd (soup table_page)) =
     [Tag ''tr'' [] [Tag ''th'' [] [], Tag ''th'' [] [Str ''All'']]] @
      Tag ''tr'' []
        [Tag ''td'' [] [Tag ''a'' [] [Str ''Citations'']],
         Tag ''td'' [(''class'', ''gsc_rsb_std'')] [Str ''1,234''],
         Tag ''td'' [(''class'', ''gsc_rsb_std'')] [Str ''567'']] # []"
  "\<forall>r\<in>set [Tag ''tr'' [] [Tag ''th'' [] [], Tag ''th'' [] [Str ''All'']]]. \<not> citations_row r"
  "find_all (is_tag ''td'')
     (Tag ''tr'' []
        [Tag ''td'' [] [Tag ''a'' [] [Str ''Citations'']],
         Tag ''td'' [(''class'', ''gsc_rsb_std'')] [Str ''1,234''],
         Tag ''td'' [(''class'', ''gsc_rsb_std'')] [Str ''567'']]) =
     Tag ''td'' [] [Tag ''a'' [] [Str ''Citations'']] #
     Tag ''td'' [(''class'', ''gsc_rsb_std'')] [Str ''1,234''] #
     [Tag ''td'' [(''class'', ''gsc_rsb_std'')] [Str ''567'']]"
  "contains ''citations'' (map lower (get_text_strip (Tag ''td'' [] [Tag ''a'' [] [Str ''Citations'']])))"
  "numeric (get_text_strip (Tag ''td'' [(''class'', ''gsc_rsb_std'')] [Str ''1,234'']))"
  "length (filter isdigit (get_text_strip (Tag ''td'' [(''class'', ''gsc_rsb_std'')] [Str ''1,234''])))
     \<le> int_max_str_digits"
  "int (decimal (remove_commas (get_text_strip (Tag ''td'' [(''class'', ''gsc_rsb_std'')] [Str ''1,234''])))) = 1234"
  by code_simp+

theorem structured_table_strategy_witness:
  "method1 (soup table_page) = Some (Inr 1234) \<and> extract_count table_page = Inr 1234"
  using structured_table_strategy [OF table_page_facts(1-7)] table_page_facts(8)
  by simp

lemma lang_chars: "lang fl r u \<Longrightarrow> c \<in> set u \<Longrightarrow> may_hold fl r c"
proof (induction r arbitrary: u)
  case (A a)
  then show ?case by (auto split: list.splits)
next
  case (Seq r1 r2)
  from Seq.prems(1) obtain i where "lang fl r1 (take i u)" "lang fl r2 (drop i u)"
    by (auto simp: lang.simps(3))
  moreover from Seq.prems(2) have "c \<in> set (take i u) \<or> c \<in> set (drop i u)"
    by (metis append_take_drop_id set_append Un_iff)
  ultimately show ?case using Seq.IH by auto
qed (auto simp: list_all_iff)

lemma seqs_cut:
  "list_all nogroups xs \<Longrightarrow> m fl (R (seqs (xs @ ys)) # k) s caps = Some res \<Longrightarrow>
   \<exists>u s'. s = u @ s' \<and> m fl (R (seqs ys) # k) s' caps = Some res"
proof (induction xs arbitrary: s)
  case Nil
  then have "s = [] @ s \<and> m fl (R (seqs ys) # k) s caps = Some res" by simp
  then show ?case by blast
next
  case (Cons x xs)
  from Cons.prems have ng: "nogroups x" "list_all nogroups xs"
    and run: "m fl (R x # R (seqs (xs @ ys)) # k) s caps = Some res" by simp_all
  from cut [OF ng(1) run] obtain u1 s1 where 1: "s = u1 @ s1"
    and run1: "m fl (R (seqs (xs @ ys)) # k) s1 caps = Some res" by blast
  from Cons.IH [OF ng(2) run1] obtain u2 s2 where 2: "s1 = u2 @ s2"
    and run2: "m fl (R (seqs ys) # k) s2 caps = Some res" by blast
  from 1 2 have "s = (u1 @ u2) @ s2" by simp
  with run2 show ?case by blast
qed

lemma citations_group:
  assumes "re_search flags_IS citations_pattern t = Some mt"
  shows "\<exists>g. groups mt = [(1, g)] \<and> lang flags_IS number_pattern g"
proof -
  from re_search_at [OF assms] obtain t' where
    run: "m flags_IS [R citations_pattern] t' [] = Some (post mt, groups mt)" by blast
  have pat: "citations_pattern = seqs ((lits ''Citations'' @ [Lazy Dot]) @ [Group 1 number_pattern])"
    by (simp add: citations_pattern_def number_pattern_def)
  have ng: "list_all nogroups (lits ''Citations'' @ [Lazy Dot])"
    by (simp add: nogroups_lits)
  from seqs_cut [OF ng, where ys = "[Group 1 number_pattern]" and fl = flags_IS and k = "[]"
                     and s = t' and caps = "[]" and res = "(post mt, groups mt)"] run pat
  obtain s' where "m flags_IS [R (seqs [Group 1 number_pattern])] s' [] = Some (post mt, groups mt)"
    by auto
  then have "m flags_IS [R (Group 1 number_pattern), R Eps] s' [] = Some (post mt, groups mt)"
    by simp
  from group_cut [OF _ this] obtain g s'' where l: "lang flags_IS number_pattern g"
    and "m flags_IS [R Eps] s'' [(1, g)] = Some (post mt, groups mt)"
    by (auto simp: number_pattern_def)
  then have "groups mt = [(1, g)]" by simp
  with l show ?thesis by blast
qed

lemma to_count_negative:
  assumes "to_count t = Inr n" and "n < 0"
  shows "\<exists>u. int_strip (remove_commas t) = CHR ''-'' # u"
proof (cases "int_strip (remove_commas t)")
  case Nil
  with assms show ?thesis by (simp add: to_count_def py_int_def split: if_splits)
next
  case (Cons c cs)
  show ?thesis
  proof (cases "c = CHR ''-''")
    case True
    with Cons show ?thesis by simp
  next
    case False
    with Cons assms show ?thesis
      by (auto simp: to_count_def py_int_def split: option.splits if_splits)
  qed
qed

lemma int_strip_subset: "set (int_strip t) \<subseteq> set t"
proof -
  have "set (int_strip t) \<subseteq> set (rev (dropWhile int_space (rev t)))"
    unfolding int_strip_def by (auto dest: set_dropWhileD)
  also have "\<dots> \<subseteq> set t" by (auto dest: set_dropWhileD)
  finally show ?thesis .
qed

lemma method3_nonnegative:
  assumes "method3 t = Some (Inr n)"
  shows "0 \<le> n"
proof (rule ccontr)
  assume "\<not> 0 \<le> n"
  then have neg: "n < 0" by simp
  from assms obtain mt g where s: "re_search flags_IS citations_pattern t = Some mt"
    and g: "group mt 1 = Some g" and c: "to_count g = Inr n"
    by (auto simp: method3_def split: option.splits)
  from citations_group [OF s] g have l: "lang flags_IS number_pattern g"
    by (auto simp: group_def)
  from to_count_negative [OF c neg] obtain u where "int_strip (remove_commas g) = CHR ''-'' # u" ..
  then have "CHR ''-'' \<in> set (int_strip (remove_commas g))" by simp
  with int_strip_subset have "CHR ''-'' \<in> set (remove_commas g)" by blast
  then have "CHR ''-'' \<in> set g" by (simp add: remove_commas_def)
  from lang_chars [OF l this] show False
    by (simp add: number_pattern_def flags_IS_def isdigit_def)
qed

text \<open>
  C9, as the code has it. \<open>int\<close> accepts a sign, and no strategy checks it. A negative
  count that the extraction returns was returned by the table strategy or by the
  styled-cell strategy, and it is the value \<open>int\<close> reads from a table cell of the
  document whose text, the commas removed and the surrounding whitespace dropped,
  begins with a minus sign. A count that the regex fallback returns is never negative:
  so the count the extraction returns when neither the table nor a styled cell yields
  anything is non-negative.
\<close>

theorem negative_count_only_from_signed_cell:
  "(extract_count resp = Inr n \<and> n < 0 \<longrightarrow>
      (method1 (soup resp) = Some (Inr n) \<or> method2 (soup resp) = Some (Inr n)) \<and>
      (\<exists>cell\<in>set (soup_nodes (soup resp)). is_tag ''td'' cell \<and>
          to_count (get_text_strip cell) = Inr n \<and>
          (\<exists>u. int_strip (remove_commas (get_text_strip cell)) = CHR ''-'' # u))) \<and>
   (method3 (resp_text resp) = Some (Inr k) \<longrightarrow> 0 \<le> k) \<and>
   (method1 (soup resp) = None \<and> method2 (soup resp) = None \<and> extract_count resp = Inr k
      \<longrightarrow> 0 \<le> k)"
proof (intro conjI impI)
  assume a: "extract_count resp = Inr n \<and> n < 0"
  then have ex: "extract_count resp = Inr n" and neg: "n < 0" by simp_all
  from extract_count_source [OF ex] neg method3_nonnegative [of "resp_text resp" n]
  have src: "\<exists>cell\<in>set (soup_nodes (soup resp)). is_tag ''td'' cell \<and>
            to_count (get_text_strip cell) = Inr n \<and>
            (method1 (soup resp) = Some (Inr n) \<or> method2 (soup resp) = Some (Inr n))"
    by auto
  then show "method1 (soup resp) = Some (Inr n) \<or> method2 (soup resp) = Some (Inr n)" by blast
  from src obtain cell where cell: "cell \<in> set (soup_nodes (soup resp))" "is_tag ''td'' cell"
    and c: "to_count (get_text_strip cell) = Inr n" by blast
  from to_count_negative [OF c neg] cell c
  show "\<exists>cell\<in>set (soup_nodes (soup resp)). is_tag ''td'' cell \<and>
          to_count (get_text_strip cell) = Inr n \<and>
          (\<exists>u. int_strip (remove_commas (get_text_strip cell)) = CHR ''-'' # u)" by blast
next
  assume "method3 (resp_text resp) = Some (Inr k)"
  then show "0 \<le> k" by (rule method3_nonnegative)
next
  assume a: "method1 (soup resp) = None \<and> method2 (soup resp) = None \<and> extract_count resp = Inr k"
  then have "method3 (resp_text resp) = Some (Inr k)"
    by (auto simp: extract_count_def split: option.splits if_splits)
  then show "0 \<le> k" by (rule method3_nonnegative)
qed

lemma negative_cell_page_facts:
  "extract_count negative_cell_page = Inr (- 5)"
  "method1 (soup negative_cell_page) \<noteq> Some (Inr (- 5))"
  by code_simp+

lemma plain_page_facts:
  "method3 (resp_text (plain_page ''Citations 12'')) = Some (Inr 12)"
  "method1 (soup (plain_page ''Citations 12'')) = None \<and>
   method2 (soup (plain_page ''Citations 12'')) = None \<and>
   extract_count (plain_page ''Citations 12'') = Inr 12"
  by code_simp+

theorem negative_count_only_from_signed_cell_witness:
  "(method2 (soup negative_cell_page) = Some (Inr (- 5)) \<and>
    (\<exists>cell\<in>set (soup_nodes (soup negative_cell_page)). is_tag ''td'' cell \<and>
        to_count (get_text_strip cell) = Inr (- 5) \<and>
        (\<exists>u. int_strip (remove_commas (get_text_strip cell)) = CHR ''-'' # u))) \<and>
   (0::int) \<le> 12"
proof -
  have 1: "extract_count negative_cell_page = Inr (- 5) \<and> (- 5 :: int) < 0"
    by (simp add: negative_cell_page_facts(1))
  from negative_count_only_from_signed_cell [of negative_cell_page "- 5"] 1
    negative_cell_page_facts(2)
  have first: "method2 (soup negative_cell_page) = Some (Inr (- 5)) \<and>
    (\<exists>cell\<in>set (soup_nodes (soup negative_cell_page)). is_tag ''td'' cell \<and>
        to_count (get_text_strip cell) = Inr (- 5) \<and>
        (\<exists>u. int_strip (remove_commas (get_text_strip cell)) = CHR ''-'' # u))"
    by blast
  from negative_count_only_from_signed_cell [of "plain_page ''Citations 12''" _ 12]
    plain_page_facts
  have "(0::int) \<le> 12" by blast
  with first show ?thesis ..
qed

text \<open>
  C9 as stated fails: from a document whose styled cell reads \<open>-5\<close>, the styled-cell
  strategy succeeds and returns the negative count -5.
\<close>

theorem negative_count_returned:
  "extract_count negative_cell_page = Inr (- 5) \<and> (- 5 :: int) < 0"
  by code_simp


section \<open>The regex fallback\<close>

lemma starts_ci_Cons:
  "starts_ci (x # w) s = (case s of [] \<Rightarrow> False | c # cs \<Rightarrow> lower c = lower x \<and> starts_ci w cs)"
  by (cases s) (auto simp: starts_ci_def)

lemma lits_step:
  "ignorecase fl \<Longrightarrow>
   m fl (R (seqs (lits w @ rs)) # k) s caps =
     (if starts_ci w s then m fl (R (seqs rs) # k) (drop (length w) s) caps else None)"
proof (induction w arbitrary: s)
  case Nil
  then show ?case by (simp add: lits_def starts_ci_def)
next
  case (Cons x w)
  have unfold: "m fl (R (seqs (lits (x # w) @ rs)) # k) s caps
      = m fl (R (A (Lit x)) # R (seqs (lits w @ rs)) # k) s caps"
    by (simp add: lits_def)
  show ?case
  proof (cases s)
    case Nil
    with unfold show ?thesis by (simp add: starts_ci_Cons)
  next
    case (Cons c cs)
    with unfold Cons.prems Cons.IH [OF Cons.prems, of cs] show ?thesis
      by (simp add: starts_ci_Cons)
  qed
qed

lemma re_search_skip:
  "\<forall>i<length before. m fl [R r] (drop i (before @ s)) [] = None \<Longrightarrow>
   re_search fl r (before @ s) = map_option (\<lambda>mt. mt\<lparr>pre := before @ pre mt\<rparr>) (re_search fl r s)"
proof (induction before)
  case Nil
  show ?case by (simp add: option.map_ident)
next
  case (Cons b bs)
  from Cons.prems have 0: "m fl [R r] (b # bs @ s) [] = None" by force
  have "\<forall>i<length bs. m fl [R r] (drop i (bs @ s)) [] = None"
  proof (intro allI impI)
    fix i assume "i < length bs"
    then have "Suc i < length (b # bs)" by simp
    with Cons.prems have "m fl [R r] (drop (Suc i) ((b # bs) @ s)) [] = None" by blast
    then show "m fl [R r] (drop i (bs @ s)) [] = None" by simp
  qed
  from Cons.IH [OF this] 0 show ?case
    by (simp add: re_search.simps [of fl r "b # bs @ s"] option.map_comp comp_def)
qed

lemma star_greedy:
  "list_all (atom_ok fl a) xs \<Longrightarrow> tl0 = [] \<or> \<not> atom_ok fl a (hd tl0) \<Longrightarrow>
   m fl k tl0 caps = Some res \<Longrightarrow> m fl (R (Star a) # k) (xs @ tl0) caps = Some res"
proof (induction xs)
  case Nil
  then show ?case by (cases tl0) auto
next
  case (Cons x xs)
  then show ?case by simp
qed

lemma lazy_skip:
  "\<forall>c\<in>set mid. atom_ok fl a c \<Longrightarrow>
   \<forall>i<length mid. m fl k (drop i (mid @ s)) caps = None \<Longrightarrow>
   m fl (R (Lazy a) # k) (mid @ s) caps = m fl (R (Lazy a) # k) s caps"
proof (induction mid)
  case Nil
  show ?case by simp
next
  case (Cons c mid)
  from Cons.prems(2) have 0: "m fl k (c # mid @ s) caps = None" by force
  have "\<forall>i<length mid. m fl k (drop i (mid @ s)) caps = None"
  proof (intro allI impI)
    fix i assume "i < length mid"
    then have "Suc i < length (c # mid)" by simp
    with Cons.prems(2) have "m fl k (drop (Suc i) ((c # mid) @ s)) caps = None" by blast
    then show "m fl k (drop i (mid @ s)) caps = None" by simp
  qed
  with Cons.IH Cons.prems(1) 0 show ?case by simp
qed

lemma lazy_now: "m fl k s caps = Some res \<Longrightarrow> m fl (R (Lazy a) # k) s caps = Some res"
  by (cases s) simp_all

lemma lower_comma: "lower c = CHR '','' \<longleftrightarrow> c = CHR '',''"
proof (cases c)
  case (Char b0 b1 b2 b3 b4 b5 b6 b7)
  show ?thesis unfolding Char by (cases b6) simp_all
qed

lemma number_fails:
  "u = [] \<or> \<not> isdigit (hd u) \<Longrightarrow> m fl [R (seqs [Group 1 number_pattern])] u [] = None"
  by (cases u) (simp_all add: number_pattern_def)

lemma close_group:
  "m fl [Close n (u @ rest), R Eps] rest caps = Some (rest, (n, u) # caps)"
  by simp

lemma number_matches:
  assumes ic: "ignorecase fl"
    and ds: "ds \<noteq> []" "list_all isdigit ds"
    and sep: "sep_group = [] \<or> (\<exists>ds2. ds2 \<noteq> [] \<and> list_all isdigit ds2 \<and> sep_group = CHR '','' # ds2)"
    and rest: "\<not> continues rest"
  shows "m fl [R (seqs [Group 1 number_pattern])] (ds @ sep_group @ rest) [] = Some (rest, [(1, ds @ sep_group)])"
proof -
  let ?u = "ds @ sep_group @ rest"
  let ?X = "Seq (A (Lit CHR '','')) (Plus Dig)"
  from ds obtain d ds' where dsc: "ds = d # ds'" and d: "isdigit d" and ds': "list_all isdigit ds'"
    by (cases ds) auto
  from rest have rest_nodigit: "rest = [] \<or> \<not> isdigit (hd rest)" by (cases rest) auto
  have close: "m fl [Close 1 ?u, R Eps] rest [] = Some (rest, [(1, ds @ sep_group)])"
    using close_group [of fl 1 "ds @ sep_group" rest "[]"] by simp
  have opt: "m fl [R (Opt ?X), Close 1 ?u, R Eps] (sep_group @ rest) [] = Some (rest, [(1, ds @ sep_group)])"
  proof (cases "sep_group = []")
    case True
    have "m fl [R ?X, Close 1 ?u, R Eps] rest [] = None"
    proof (cases rest)
      case Nil
      then show ?thesis by simp
    next
      case (Cons c cs)
      show ?thesis
      proof (cases cs)
        case Nil
        with Cons show ?thesis by simp
      next
        case (Cons e es)
        with \<open>rest = c # cs\<close> rest ic show ?thesis by (auto simp: lower_comma)
      qed
    qed
    with True close show ?thesis by simp
  next
    case False
    with sep obtain ds2 where ds2: "ds2 \<noteq> []" "list_all isdigit ds2" and s: "sep_group = CHR '','' # ds2"
      by auto
    from ds2 obtain e es where e: "ds2 = e # es" "isdigit e" "list_all isdigit es"
      by (cases ds2) auto
    have "list_all (atom_ok fl Dig) es" using e(3) by (simp add: list_all_iff)
    from star_greedy [OF this _ close] rest_nodigit
    have "m fl [R (Star Dig), Close 1 ?u, R Eps] (es @ rest) [] = Some (rest, [(1, ds @ sep_group)])"
      by simp
    with s e ic show ?thesis by simp
  qed
  have "list_all (atom_ok fl Dig) ds'" using ds' by (simp add: list_all_iff)
  moreover have "sep_group @ rest = [] \<or> \<not> atom_ok fl Dig (hd (sep_group @ rest))"
    using sep rest_nodigit by (auto simp: isdigit_def)
  ultimately have "m fl [R (Star Dig), R (Opt ?X), Close 1 ?u, R Eps] (ds' @ sep_group @ rest) []
      = Some (rest, [(1, ds @ sep_group)])"
    using opt by (intro star_greedy)
  with dsc d show ?thesis by (simp add: number_pattern_def)
qed

lemma citations_pattern_split:
  "citations_pattern = seqs (lits ''Citations'' @ [Lazy Dot, Group 1 number_pattern])"
  by (simp add: citations_pattern_def number_pattern_def)

lemma citations_here:
  assumes w: "map lower word = ''citations''"
    and mid: "\<forall>c\<in>set mid. \<not> isdigit c"
    and ds: "ds \<noteq> []" "list_all isdigit ds"
    and sep: "sep_group = [] \<or> (\<exists>ds2. ds2 \<noteq> [] \<and> list_all isdigit ds2 \<and> sep_group = CHR '','' # ds2)"
    and rest: "\<not> continues rest"
  shows "m flags_IS [R citations_pattern] (word @ mid @ ds @ sep_group @ rest) []
         = Some (rest, [(1, ds @ sep_group)])"
proof -
  let ?k = "[R (seqs [Group 1 number_pattern])]"
  let ?t = "ds @ sep_group @ rest"
  have ic: "ignorecase flags_IS" by (simp add: flags_IS_def)
  from w have "length (map lower word) = length ''citations''" by simp
  then have len: "length word = 9" by simp
  with w have st: "starts_ci ''Citations'' (word @ mid @ ?t)" by (simp add: starts_ci_def)
  have num: "m flags_IS ?k ?t [] = Some (rest, [(1, ds @ sep_group)])"
    by (rule number_matches [OF ic ds sep rest])
  have skip: "\<forall>i<length mid. m flags_IS ?k (drop i (mid @ ?t)) [] = None"
  proof (intro allI impI)
    fix i assume i: "i < length mid"
    then have "hd (drop i (mid @ ?t)) = mid ! i" by (simp add: hd_drop_conv_nth nth_append)
    moreover from i mid have "\<not> isdigit (mid ! i)" by simp
    ultimately have "\<not> isdigit (hd (drop i (mid @ ?t)))" by simp
    then show "m flags_IS ?k (drop i (mid @ ?t)) [] = None" by (intro number_fails disjI2)
  qed
  have dot: "\<forall>c\<in>set mid. atom_ok flags_IS Dot c" by (simp add: flags_IS_def)
  have "m flags_IS [R citations_pattern] (word @ mid @ ?t) []
        = m flags_IS [R (seqs [Lazy Dot, Group 1 number_pattern])] (mid @ ?t) []"
    using lits_step [OF ic, of "''Citations''" "[Lazy Dot, Group 1 number_pattern]" "[]" "word @ mid @ ?t" "[]"]
      st len by (simp add: citations_pattern_split)
  also have "\<dots> = m flags_IS (R (Lazy Dot) # ?k) (mid @ ?t) []" by simp
  also have "\<dots> = m flags_IS (R (Lazy Dot) # ?k) ?t []" by (rule lazy_skip [OF dot skip])
  also have "\<dots> = Some (rest, [(1, ds @ sep_group)])" by (rule lazy_now [OF num])
  finally show ?thesis .
qed

lemma starts_ci_lower: "map lower w = map lower w' \<Longrightarrow> starts_ci w s = starts_ci w' s"
  by (metis length_map starts_ci_def)

text \<open>
  C3, as the code has it. Let the document hold neither the statistics table nor a
  styled cell. Let \<open>word\<close> be the first place in the text that reads \<open>citations\<close> in
  any mix of upper and lower case, let no digit stand between it and the digits \<open>ds\<close>,
  let the value be written as \<open>ds\<close> alone or as \<open>ds\<close> with one separator group (a comma
  and digits), and let the value end there (what follows begins neither with a digit
  nor with a comma and a digit) and have no more digits than \<open>int\<close> accepts. Then
  extraction returns the integer that the value denotes, the separator stripped. Nothing
  is said here about a value written with more than one separator group.
\<close>

theorem regex_fallback_strategy:
  assumes "soup_find (\<lambda>n. is_tag ''table'' n \<and> has_id ''gsc_rsb_st'' n) (soup resp) = None"
    and "soup_find_all (\<lambda>n. is_tag ''td'' n \<and> has_class ''gsc_rsb_std'' n) (soup resp) = []"
    and "resp_text resp = before @ word @ mid @ ds @ sep_group @ rest"
    and "map lower word = ''citations''"
    and "\<forall>i<length before. \<not> starts_ci ''citations'' (drop i (resp_text resp))"
    and "\<forall>c\<in>set mid. \<not> isdigit c"
    and "ds \<noteq> []" and "list_all isdigit ds"
    and "sep_group = [] \<or> (\<exists>ds2. ds2 \<noteq> [] \<and> list_all isdigit ds2 \<and> sep_group = CHR '','' # ds2)"
    and "\<not> continues rest"
    and "length (filter isdigit (ds @ sep_group)) \<le> int_max_str_digits"
  shows "extract_count resp = Inr (int (decimal (remove_commas (ds @ sep_group))))"
proof -
  let ?s = "word @ mid @ ds @ sep_group @ rest"
  have ic: "ignorecase flags_IS" by (simp add: flags_IS_def)
  have here: "m flags_IS [R citations_pattern] ?s [] = Some (rest, [(1, ds @ sep_group)])"
    by (rule citations_here [OF assms(4) assms(6-10)])
  have early: "\<forall>i<length before. m flags_IS [R citations_pattern] (drop i (before @ ?s)) [] = None"
  proof (intro allI impI)
    fix i assume "i < length before"
    with assms(5) assms(3) have "\<not> starts_ci ''citations'' (drop i (before @ ?s))" by simp
    then have "\<not> starts_ci ''Citations'' (drop i (before @ ?s))"
      using starts_ci_lower [of "''Citations''" "''citations''"] by simp
    with lits_step [OF ic, of "''Citations''" "[Lazy Dot, Group 1 number_pattern]" "[]" _ "[]"]
    show "m flags_IS [R citations_pattern] (drop i (before @ ?s)) [] = None"
      by (simp add: citations_pattern_split)
  qed
  from here have "re_search flags_IS citations_pattern ?s
      = Some \<lparr>pre = [], whole = take (length ?s - length rest) ?s, post = rest,
               groups = [(1, ds @ sep_group)]\<rparr>"
    by (simp add: re_search.simps [of _ _ ?s])
  with re_search_skip [OF early] assms(3)
  obtain mt where "re_search flags_IS citations_pattern (resp_text resp) = Some mt"
    and "groups mt = [(1, ds @ sep_group)]" by auto
  then have m3: "method3 (resp_text resp) = Some (to_count (ds @ sep_group))"
    by (simp add: method3_def group_def)
  have "numeric (ds @ sep_group)"
    using assms(7-9) by (cases ds) (auto simp: numeric_def list_all_iff)
  from to_count_numeric [OF this assms(11)] m3
  have "method3 (resp_text resp) = Some (Inr (int (decimal (remove_commas (ds @ sep_group)))))"
    by simp
  moreover from assms(1) have "method1 (soup resp) = None" by (simp add: method1_def)
  moreover from assms(2) have "method2 (soup resp) = None" by (simp add: method2_def)
  ultimately show ?thesis by (simp add: extract_count_def)
qed

lemma all_below: "(\<forall>i<n. P i) \<longleftrightarrow> list_all P [0..<n]"
  by (auto simp: list_all_iff)

lemma fallback_sample_facts:
  "soup_find (\<lambda>n. is_tag ''table'' n \<and> has_id ''gsc_rsb_st'' n)
     (soup (plain_page ''Total citations: 1,234 since 2020'')) = None"
  "soup_find_all (\<lambda>n. is_tag ''td'' n \<and> has_class ''gsc_rsb_std'' n)
     (soup (plain_page ''Total citations: 1,234 since 2020'')) = []"
  "list_all (\<lambda>i. \<not> starts_ci ''citations''
       (drop i (resp_text (plain_page ''Total citations: 1,234 since 2020''))))
     [0..<length ''Total '']"
  "\<not> continues '' since 2020''"
  "int (decimal (remove_commas (''1'' @ '',234''))) = 1234"
  "length (filter isdigit (''1'' @ '',234'')) \<le> int_max_str_digits"
  by code_simp+

theorem regex_fallback_strategy_witness:
  "extract_count (plain_page ''Total citations: 1,234 since 2020'') = Inr 1234"
proof -
  let ?resp = "plain_page ''Total citations: 1,234 since 2020''"
  have 3: "resp_text ?resp = ''Total '' @ ''citations'' @ '': '' @ ''1'' @ '',234'' @ '' since 2020''"
    by (simp add: plain_page_def)
  have 4: "map lower ''citations'' = ''citations''" by simp
  have 5: "\<forall>i<length ''Total ''. \<not> starts_ci ''citations'' (drop i (resp_text ?resp))"
    unfolding all_below by (rule fallback_sample_facts(3))
  have 6: "\<forall>c\<in>set '': ''. \<not> isdigit c" by (simp add: isdigit_def)
  have 7: "''1'' \<noteq> []" "list_all isdigit ''1''" by (simp_all add: isdigit_def)
  have 9: "'',234'' = [] \<or> (\<exists>ds2. ds2 \<noteq> [] \<and> list_all isdigit ds2 \<and> '',234'' = CHR '','' # ds2)"
    by (rule disjI2, rule exI [of _ "''234''"]) (simp add: isdigit_def)
  from regex_fallback_strategy [OF fallback_sample_facts(1,2) 3 4 5 6 7 9 fallback_sample_facts(4,6)]
    fallback_sample_facts(5)
  show ?thesis by simp
qed

text \<open>
  C3 as stated fails. The pattern takes at most one separator group, so the value
  \<open>1,234,567\<close> is returned as 1234, not in full; and the word is matched in any case,
  so in the second text the digit after the lower-case \<open>citations\<close> is returned, not
  the one after \<open>Citations\<close>.
\<close>

theorem regex_fallback_differs:
  "extract_count (plain_page ''Citations 1,234,567'') = Inr 1234 \<and>
   extract_count (plain_page ''citations 7 Citations 9'') = Inr 7"
  by code_simp

end
